theory Spec2Isabelle
  imports Main "HOL-Library.Sublist"
begin

section \<open>Characters and Python string primitives\<close>

text \<open>
  Python strings are sequences of code points. The model uses HOL's \<open>string\<close>, whose
  characters are the code points below 256 (Latin-1); \<open>of_char c\<close> is the code point.
  The character classes below are those of CPython on that range:
  \<open>str.isspace\<close> (used by \<open>str.split\<close>, \<open>str.strip\<close> and the regular expression
  \<open>\s\<close>), the decimal digits of \<open>\d\<close>, the word characters of \<open>\w\<close> (which decide
  \<open>\b\<close>) and the line boundaries of \<open>str.splitlines\<close>.
\<close>

definition is_space :: "char \<Rightarrow> bool" where
  "is_space c \<longleftrightarrow> (of_char c :: nat) \<in> {9, 10, 11, 12, 13, 28, 29, 30, 31, 32, 133, 160}"

definition is_digit :: "char \<Rightarrow> bool" where
  "is_digit c \<longleftrightarrow> 48 \<le> (of_char c :: nat) \<and> (of_char c :: nat) \<le> 57"

definition is_upper :: "char \<Rightarrow> bool" where
  "is_upper c \<longleftrightarrow> 65 \<le> (of_char c :: nat) \<and> (of_char c :: nat) \<le> 90"

definition is_lower :: "char \<Rightarrow> bool" where
  "is_lower c \<longleftrightarrow> 97 \<le> (of_char c :: nat) \<and> (of_char c :: nat) \<le> 122"

definition is_letter :: "char \<Rightarrow> bool" where
  \<comment> \<open>the class \<open>[a-zA-Z]\<close>\<close>
  "is_letter c \<longleftrightarrow> is_upper c \<or> is_lower c"

definition is_word :: "char \<Rightarrow> bool" where
  \<comment> \<open>\<open>\w\<close>: alphanumeric in the sense of \<open>str.isalnum\<close>, or the underscore\<close>
  "is_word c \<longleftrightarrow>
     (let n = (of_char c :: nat) in
        is_digit c \<or> is_letter c \<or> n = 95 \<or>
        n \<in> {170, 178, 179, 181, 185, 186, 188, 189, 190} \<or>
        (192 \<le> n \<and> n \<noteq> 215 \<and> n \<noteq> 247))"

definition is_linebreak :: "char \<Rightarrow> bool" where
  "is_linebreak c \<longleftrightarrow> (of_char c :: nat) \<in> {10, 11, 12, 13, 28, 29, 30, 133}"

definition not_newline :: "char \<Rightarrow> bool" where
  \<comment> \<open>the class of \<open>.\<close> without DOTALL\<close>
  "not_newline c \<longleftrightarrow> c \<noteq> CHR 0x0A"

definition label_char :: "char \<Rightarrow> bool" where
  \<comment> \<open>the class \<open>[A-Z_]\<close>\<close>
  "label_char c \<longleftrightarrow> is_upper c \<or> c = CHR ''_''"

definition to_lower :: "char \<Rightarrow> char" where
  "to_lower c = (if is_upper c then char_of (of_char c + (32::nat)) else c)"

definition to_upper :: "char \<Rightarrow> char" where
  "to_upper c = (if is_lower c then char_of (of_char c - (32::nat)) else c)"

definition upper :: "string \<Rightarrow> string" where
  \<comment> \<open>\<open>str.upper\<close>; the source applies it to a match of \<open>[A-Z_]+\<close> only, where
      CPython's case mapping and this one agree (both are the identity there)\<close>
  "upper s = map to_upper s"

fun py_find_from :: "string \<Rightarrow> nat \<Rightarrow> string \<Rightarrow> int" where
  "py_find_from pat k [] = (if pat = [] then int k else - 1)"
| "py_find_from pat k (c # cs) =
     (if prefix pat (c # cs) then int k else py_find_from pat (Suc k) cs)"

definition py_find :: "string \<Rightarrow> string \<Rightarrow> int" where
  \<comment> \<open>\<open>text.find(pat)\<close>: the least index where \<open>pat\<close> occurs, or \<open>-1\<close>\<close>
  "py_find text pat = py_find_from pat 0 text"

definition strip :: "string \<Rightarrow> string" where
  "strip s = rev (dropWhile is_space (rev (dropWhile is_space s)))"

fun join :: "string \<Rightarrow> string list \<Rightarrow> string" where
  "join sep [] = []"
| "join sep [x] = x"
| "join sep (x # y # ys) = x @ sep @ join sep (y # ys)"

fun split_ws :: "string \<Rightarrow> string \<Rightarrow> string list" where
  \<comment> \<open>\<open>str.split()\<close> with no separator; the first argument is the word being read\<close>
  "split_ws cur [] = (if cur = [] then [] else [cur])"
| "split_ws cur (c # cs) =
     (if is_space c then (if cur = [] then split_ws [] cs else cur # split_ws [] cs)
      else split_ws (cur @ [c]) cs)"

definition py_split :: "string \<Rightarrow> string list" where
  "py_split s = split_ws [] s"

fun splitlines_from :: "string \<Rightarrow> string \<Rightarrow> string list" where
  \<comment> \<open>\<open>str.splitlines()\<close>: \<open>\r\n\<close> is one boundary, and no empty last line is produced\<close>
  "splitlines_from cur [] = (if cur = [] then [] else [cur])"
| "splitlines_from cur (c # cs) =
     (if c = CHR 0x0D \<and> cs \<noteq> [] \<and> hd cs = CHR 0x0A then cur # splitlines_from [] (tl cs)
      else if is_linebreak c then cur # splitlines_from [] cs
      else splitlines_from (cur @ [c]) cs)"

definition splitlines :: "string \<Rightarrow> string list" where
  "splitlines s = splitlines_from [] s"

function replace :: "string \<Rightarrow> string \<Rightarrow> string \<Rightarrow> string" where
  \<comment> \<open>\<open>s.replace(old, new)\<close> for a non-empty \<open>old\<close>: leftmost, non-overlapping\<close>
  "replace old new [] = []"
| "replace old new (c # cs) =
     (if old \<noteq> [] \<and> prefix old (c # cs)
      then new @ replace old new (drop (length old) (c # cs))
      else c # replace old new cs)"
  by pat_completeness auto
termination
  by (relation "measure (\<lambda>(old, new, s). length s)") auto

fun digits_value :: "int \<Rightarrow> string \<Rightarrow> int" where
  "digits_value acc [] = acc"
| "digits_value acc (c # cs) = digits_value (10 * acc + (int (of_char c) - 48)) cs"

definition py_int :: "string \<Rightarrow> int option" where
  \<comment> \<open>\<open>int(s)\<close> on a decimal literal with an optional minus sign; \<open>None\<close> is
      \<open>ValueError\<close>, which CPython from 3.11 on also raises beyond 4300 digits\<close>
  "py_int s =
     (let neg = (s \<noteq> [] \<and> hd s = CHR ''-''); ds = (if neg then tl s else s)
      in if ds = [] \<or> \<not> list_all is_digit ds \<or> length ds > 4300 then None
         else Some (if neg then - digits_value 0 ds else digits_value 0 ds))"

section \<open>Regular expressions\<close>

text \<open>
  The patterns of the source are sequences of single-character classes under the
  greedy quantifiers \<open>*\<close>, \<open>+\<close> and \<open>?\<close>, with the zero-width assertions \<open>\b\<close> and
  \<open>(?<=[...])\<close>. A pattern is a list of items; \<open>X+\<close> is written \<open>Cls X, Star X\<close>.
  \<open>rmatch\<close> is the backtracking matcher of \<open>re\<close>: it tries the longest repetition
  first and gives back characters one at a time. Its second argument is the character
  before the current position (\<open>None\<close> at the start of the string). The result lists,
  item by item, the text each item consumed, from which the groups are read.
\<close>

datatype item =
    Cls "char \<Rightarrow> bool"
  | Star "char \<Rightarrow> bool"
  | Opt "char \<Rightarrow> bool"
  | WordB
  | Behind "char \<Rightarrow> bool"

definition word_opt :: "char option \<Rightarrow> bool" where
  "word_opt p = (case p of None \<Rightarrow> False | Some c \<Rightarrow> is_word c)"

definition next_char :: "string \<Rightarrow> char option" where
  "next_char s = (case s of [] \<Rightarrow> None | c # _ \<Rightarrow> Some c)"

definition skip :: "string list option \<Rightarrow> string list option" where
  \<comment> \<open>the item consumed nothing\<close>
  "skip r = map_option ((#) []) r"

fun rmatch :: "item list \<Rightarrow> char option \<Rightarrow> string \<Rightarrow> string list option" where
  "rmatch [] p s = Some []"
| "rmatch (Cls P # r) p [] = None"
| "rmatch (Cls P # r) p (c # cs) =
     (if P c then map_option ((#) [c]) (rmatch r (Some c) cs) else None)"
| "rmatch (Star P # r) p [] = skip (rmatch r p [])"
| "rmatch (Star P # r) p (c # cs) =
     (if P c then
        (case rmatch (Star P # r) (Some c) cs of
           Some (x # xs) \<Rightarrow> Some ((c # x) # xs)
         | _ \<Rightarrow> skip (rmatch r p (c # cs)))
      else skip (rmatch r p (c # cs)))"
| "rmatch (Opt P # r) p [] = skip (rmatch r p [])"
| "rmatch (Opt P # r) p (c # cs) =
     (if P c then
        (case rmatch r (Some c) cs of
           Some xs \<Rightarrow> Some ([c] # xs)
         | None \<Rightarrow> skip (rmatch r p (c # cs)))
      else skip (rmatch r p (c # cs)))"
| "rmatch (WordB # r) p s =
     (if word_opt p \<noteq> word_opt (next_char s) then skip (rmatch r p s) else None)"
| "rmatch (Behind P # r) p s =
     (case p of None \<Rightarrow> None | Some c \<Rightarrow> if P c then skip (rmatch r p s) else None)"

fun search_from :: "item list \<Rightarrow> char option \<Rightarrow> nat \<Rightarrow> string \<Rightarrow> (nat \<times> string list) option" where
  \<comment> \<open>the leftmost match at or after the current position \<open>k\<close>\<close>
  "search_from r p k [] =
     (case rmatch r p [] of Some parts \<Rightarrow> Some (k, parts) | None \<Rightarrow> None)"
| "search_from r p k (c # cs) =
     (case rmatch r p (c # cs) of
        Some parts \<Rightarrow> Some (k, parts)
      | None \<Rightarrow> search_from r (Some c) (Suc k) cs)"

type_synonym regex = "(nat \<times> item) list"

definition re_search :: "regex \<Rightarrow> string \<Rightarrow> (nat \<times> string list) option" where
  \<comment> \<open>\<open>re.search\<close>: the start of the leftmost match and the text of each item\<close>
  "re_search re s = search_from (map snd re) None 0 s"

definition group :: "regex \<Rightarrow> string list \<Rightarrow> nat \<Rightarrow> string" where
  \<comment> \<open>\<open>m.group(n)\<close>: the text consumed by the items tagged with group \<open>n\<close>\<close>
  "group re parts n = concat (map snd (filter (\<lambda>(g, x). g = n) (zip (map fst re) parts)))"

definition lit :: "string \<Rightarrow> regex" where
  "lit s = map (\<lambda>c. (0, Cls (\<lambda>x. x = c))) s"

definition lit_i :: "string \<Rightarrow> regex" where
  \<comment> \<open>a literal under \<open>re.IGNORECASE\<close>\<close>
  "lit_i s = map (\<lambda>c. (0, Cls (\<lambda>x. to_lower x = to_lower c))) s"

definition chr :: "char \<Rightarrow> item" where
  "chr c = Cls (\<lambda>x. x = c)"

section \<open>The oracle's answer: \<open>parse_table_response\<close>\<close>

text \<open>
  \<^verbatim>\<open>LABEL\s*=\s*([A-Z_]+)\s*;\s*END_INDEX\s*=\s*(-?\d+)\s*;\s*REASON\s*=\s*(.+)\<close>
\<close>

definition PARSE_RE :: regex where
  "PARSE_RE =
     lit ''LABEL'' @
     [(0, Star is_space), (0, chr CHR ''=''), (0, Star is_space),
      (1, Cls label_char), (1, Star label_char),
      (0, Star is_space), (0, chr CHR '';''), (0, Star is_space)] @
     lit ''END_INDEX'' @
     [(0, Star is_space), (0, chr CHR ''=''), (0, Star is_space),
      (2, Opt (\<lambda>x. x = CHR ''-'')), (2, Cls is_digit), (2, Star is_digit),
      (0, Star is_space), (0, chr CHR '';''), (0, Star is_space)] @
     lit ''REASON'' @
     [(0, Star is_space), (0, chr CHR ''=''), (0, Star is_space),
      (3, Cls not_newline), (3, Star not_newline)]"

record qres =
  label :: string
  end_index :: int
  reason :: string

definition from_label :: "string \<Rightarrow> string" where
  \<comment> \<open>\<open>idx = text.find("LABEL="); if idx >= 0: text = text[idx:]\<close>\<close>
  "from_label text =
     (let idx = py_find text ''LABEL='' in if idx \<ge> 0 then drop (nat idx) text else text)"

definition one_line :: "string \<Rightarrow> string" where
  \<comment> \<open>\<open>" ".join(" ".join(text.splitlines()).split())\<close>\<close>
  "one_line text = join '' '' (py_split (join '' '' (splitlines text)))"

definition parse_table_response :: "string \<Rightarrow> qres" where
  "parse_table_response text =
     (let text_one = one_line (from_label text) in
      case re_search PARSE_RE text_one of
        None \<Rightarrow>
          \<lparr>label = ''PARSE_ERROR'', end_index = - 1, reason = ''raw: '' @ take 200 text_one\<rparr>
      | Some (k, parts) \<Rightarrow>
          (let lab = upper (group PARSE_RE parts 1);
               end_idx = (case py_int (group PARSE_RE parts 2) of
                            Some v \<Rightarrow> v
                          | None \<Rightarrow> - 1);
               rsn = strip (group PARSE_RE parts 3);
               lab = (if lab \<notin> {''TABLE_CAPTION'', ''NOT_CAPTION''} then ''PARSE_ERROR'' else lab);
               end_idx = (if end_idx \<notin> {- 1, 0, 1, 2} then - 1 else end_idx)
           in \<lparr>label = lab, end_index = end_idx, reason = rsn\<rparr>))"

section \<open>Sentence splitting\<close>

function re_split :: "item list \<Rightarrow> char option \<Rightarrow> string \<Rightarrow> string list" where
  \<comment> \<open>\<open>re.split\<close> for a pattern that cannot match the empty string: the pieces between
      successive leftmost matches; \<open>n\<close> is the end of the match, which lies in the text\<close>
  "re_split r p s =
     (case search_from r p 0 s of
        None \<Rightarrow> [s]
      | Some (k, parts) \<Rightarrow>
          (let n = k + length (concat parts) in
           if n = 0 \<or> length s < n then [s]
           else take k s # re_split r (Some (s ! (n - 1))) (drop n s)))"
  by pat_completeness auto
termination
proof (relation "measure (\<lambda>(r, p, s). length s)")
  fix r :: "item list" and p :: "char option" and s :: string
    and x2 :: "nat \<times> string list" and k :: nat and parts :: "string list" and n :: nat
  assume "\<not> (n = 0 \<or> length s < n)"
  then have "length (drop n s) < length s"
    by (cases s) auto
  then show "((r, Some (s ! (n - 1)), drop n s), r, p, s) \<in> measure (\<lambda>(r, p, s). length s)"
    by simp
qed simp

definition FIG_TOKEN :: string where
  "FIG_TOKEN = ''FIGSPECIALTOKEN''"

definition FIGS_TOKEN :: string where
  "FIGS_TOKEN = ''FIGSSPECIALTOKEN''"

definition SENT_SPLIT_RE :: regex where
  \<comment> \<open>\<^verbatim>\<open>(?<=[.!?])\s+\<close>\<close>
  "SENT_SPLIT_RE =
     [(0, Behind (\<lambda>x. x \<in> {CHR ''.'', CHR ''!'', CHR ''?''})),
      (0, Cls is_space), (0, Star is_space)]"

definition split_sentences :: "string \<Rightarrow> string list" where
  "split_sentences text =
     (let tmp = replace ''Figs.'' FIGS_TOKEN (replace ''Fig.'' FIG_TOKEN text);
          sents = re_split (map snd SENT_SPLIT_RE) None tmp;
          sents = map strip (filter (\<lambda>s. s \<noteq> [] \<and> length (strip s) > 0) sents)
      in map (\<lambda>s. strip (replace FIGS_TOKEN ''Figs.'' (replace FIG_TOKEN ''Fig.'' s))) sents)"

section \<open>Caption records\<close>

record caption =
  cap_type :: string
  cap_id :: "string option"
  start_sent_idx :: int
  end_sent_idx :: int
  caption_text :: string
  source :: string
  raw_window :: "string list"
  table_label :: "string option"
  table_end_in_window :: "int option"
  table_reason :: "string option"

record file_caption = caption +
  file_name :: string

definition slice :: "'a list \<Rightarrow> nat \<Rightarrow> nat \<Rightarrow> 'a list" where
  \<comment> \<open>\<open>xs[a:b]\<close> for indices that are not negative\<close>
  "slice xs a b = take (b - a) (drop a xs)"

definition mark :: "bool list \<Rightarrow> nat \<Rightarrow> nat \<Rightarrow> bool list" where
  \<comment> \<open>\<open>for k in range(a, b + 1): used[k] = True\<close>; the callers keep \<open>b\<close> below the length\<close>
  "mark used a b = fold (\<lambda>k u. u[k := True]) [a..<Suc b] used"

section \<open>Figure captions: \<open>detect_figure_captions\<close>\<close>

definition FIG_PATTERN :: regex where
  \<comment> \<open>\<^verbatim>\<open>\bFig\.\s*\d+\<close> under \<open>re.IGNORECASE\<close>\<close>
  "FIG_PATTERN =
     [(0, WordB)] @ lit_i ''Fig'' @
     [(0, chr CHR ''.''), (0, Star is_space), (0, Cls is_digit), (0, Star is_digit)]"

definition FIG_NUM_RE :: regex where
  \<comment> \<open>\<^verbatim>\<open>Fig\.\s*([0-9]+[a-zA-Z]?)\<close>, case-sensitive\<close>
  "FIG_NUM_RE =
     lit ''Fig'' @
     [(0, chr CHR ''.''), (0, Star is_space),
      (1, Cls is_digit), (1, Star is_digit), (1, Opt is_letter)]"

definition fig_no_at :: "string \<Rightarrow> nat \<Rightarrow> string option" where
  \<comment> \<open>\<open>tail = s[m.start():]\<close>, then the number searched in \<open>tail\<close>\<close>
  "fig_no_at s mstart =
     (case re_search FIG_NUM_RE (drop mstart s) of
        None \<Rightarrow> None
      | Some (k, parts) \<Rightarrow> Some (group FIG_NUM_RE parts 1))"

definition fig_end :: "string list \<Rightarrow> nat \<Rightarrow> nat" where
  \<comment> \<open>\<open>min(i + 2, len(sentences) - 1)\<close>, computed where \<open>i < len(sentences)\<close>\<close>
  "fig_end sentences i = min (i + 2) (length sentences - 1)"

definition figure_record :: "string list \<Rightarrow> nat \<Rightarrow> nat \<Rightarrow> caption" where
  "figure_record sentences i mstart =
     \<lparr>cap_type = ''FIGURE'',
      cap_id = fig_no_at (sentences ! i) mstart,
      start_sent_idx = int i,
      end_sent_idx = int (fig_end sentences i),
      caption_text = join '' '' (slice sentences i (fig_end sentences i + 1)),
      source = ''RULE_FIG_PATTERN'',
      raw_window = slice sentences i (fig_end sentences i + 1),
      table_label = None,
      table_end_in_window = None,
      table_reason = None\<rparr>"

function fig_loop :: "string list \<Rightarrow> nat \<Rightarrow> bool list \<Rightarrow> caption list \<Rightarrow> caption list" where
  \<comment> \<open>the \<open>for i, s in enumerate(sentences)\<close> loop, from index \<open>i\<close> on\<close>
  "fig_loop sentences i used results =
     (if i < length sentences then
        (if used ! i then fig_loop sentences (Suc i) used results
         else
           (case re_search FIG_PATTERN (sentences ! i) of
              None \<Rightarrow> fig_loop sentences (Suc i) used results
            | Some (mstart, parts) \<Rightarrow>
                fig_loop sentences (Suc i) (mark used i (fig_end sentences i))
                  (results @ [figure_record sentences i mstart])))
      else results)"
  by pat_completeness auto
termination
  by (relation "measure (\<lambda>(sentences, i, used, results). length sentences - i)") auto

definition detect_figure_captions :: "string list \<Rightarrow> caption list" where
  "detect_figure_captions sentences =
     fig_loop sentences 0 (replicate (length sentences) False) []"

section \<open>Table captions: \<open>call_qwen_table\<close> and \<open>detect_table_captions\<close>\<close>

text \<open>
  The chat model is outside the program. It is a function of its own state and of the
  three sentences the prompt is built from; it answers with the content of the reply
  (\<open>Inr\<close>) or raises (\<open>Inl\<close>, with the text of the exception), and it may answer the
  same window differently at different times.
\<close>

type_synonym 'o chat_fn = "'o \<Rightarrow> string \<Rightarrow> string \<Rightarrow> string \<Rightarrow> (string + string) \<times> 'o"

definition call_qwen_table :: "'o chat_fn \<Rightarrow> 'o \<Rightarrow> string \<Rightarrow> string \<Rightarrow> string \<Rightarrow> qres \<times> 'o" where
  "call_qwen_table chat st s0 s1 s2 =
     (case chat st s0 s1 s2 of
        (Inl e, st') \<Rightarrow>
          (\<lparr>label = ''ERROR'', end_index = - 1, reason = ''Qwen call error: '' @ e\<rparr>, st')
      | (Inr content, st') \<Rightarrow> (parse_table_response (strip content), st'))"

definition TABLE_KEYWORD_PAT :: regex where
  \<comment> \<open>\<^verbatim>\<open>\bTable[s]?\b\<close> under \<open>re.IGNORECASE\<close>\<close>
  "TABLE_KEYWORD_PAT =
     [(0, WordB)] @ lit_i ''Table'' @
     [(0, Opt (\<lambda>x. to_lower x = CHR ''s'')), (0, WordB)]"

definition TABLE_NUM_RE :: regex where
  \<comment> \<open>\<^verbatim>\<open>\bTable\s*([0-9]+[a-zA-Z]?)\<close> under \<open>re.IGNORECASE\<close>\<close>
  "TABLE_NUM_RE =
     [(0, WordB)] @ lit_i ''Table'' @
     [(0, Star is_space), (1, Cls is_digit), (1, Star is_digit), (1, Opt is_letter)]"

definition window1 :: "string list \<Rightarrow> nat \<Rightarrow> string" where
  "window1 sentences i = (if i + 1 < length sentences then sentences ! (i + 1) else [])"

definition window2 :: "string list \<Rightarrow> nat \<Rightarrow> string" where
  "window2 sentences i = (if i + 2 < length sentences then sentences ! (i + 2) else [])"

definition tab_end :: "string list \<Rightarrow> nat \<Rightarrow> int \<Rightarrow> nat" where
  \<comment> \<open>\<open>min(i + end_in_win, n - 1)\<close>, computed where \<open>i < n\<close> and \<open>end_in_win >= 0\<close>\<close>
  "tab_end sentences i end_in_win = nat (min (int i + end_in_win) (int (length sentences) - 1))"

definition table_id :: "string \<Rightarrow> string option" where
  "table_id text_window =
     (case re_search TABLE_NUM_RE text_window of
        None \<Rightarrow> None
      | Some (k, parts) \<Rightarrow> Some (group TABLE_NUM_RE parts 1))"

definition accepted_record :: "string list \<Rightarrow> nat \<Rightarrow> qres \<Rightarrow> caption" where
  "accepted_record sentences i q =
     (let end_idx = tab_end sentences i (end_index q) in
      \<lparr>cap_type = ''TABLE'',
       cap_id = table_id (join '' '' (slice sentences i (end_idx + 1))),
       start_sent_idx = int i,
       end_sent_idx = int end_idx,
       caption_text = join '' '' (slice sentences i (end_idx + 1)),
       source = ''LLM_TABLE'',
       raw_window = [sentences ! i, window1 sentences i, window2 sentences i],
       table_label = Some (label q),
       table_end_in_window = Some (end_index q),
       table_reason = Some (reason q)\<rparr>)"

definition rejected_record :: "string list \<Rightarrow> nat \<Rightarrow> qres \<Rightarrow> caption" where
  "rejected_record sentences i q =
     \<lparr>cap_type = ''TABLE'',
      cap_id = None,
      start_sent_idx = int i,
      end_sent_idx = int i,
      caption_text = sentences ! i,
      source = ''LLM_TABLE'',
      raw_window = [sentences ! i, window1 sentences i, window2 sentences i],
      table_label = Some (label q),
      table_end_in_window = Some (end_index q),
      table_reason = Some (reason q)\<rparr>"

function tab_loop ::
  "'o chat_fn \<Rightarrow> string list \<Rightarrow> nat \<Rightarrow> bool list \<Rightarrow> caption list \<Rightarrow> 'o \<Rightarrow> caption list \<times> 'o" where
  \<comment> \<open>the \<open>while i < n\<close> loop, from index \<open>i\<close> on\<close>
  "tab_loop chat sentences i used results st =
     (if i < length sentences then
        (if used ! i then tab_loop chat sentences (Suc i) used results st
         else if re_search TABLE_KEYWORD_PAT (sentences ! i) = None
         then tab_loop chat sentences (Suc i) used results st
         else
           (case call_qwen_table chat st (sentences ! i) (window1 sentences i) (window2 sentences i) of
              (q_res, st') \<Rightarrow>
                if label q_res = ''TABLE_CAPTION'' \<and> end_index q_res \<ge> 0
                then tab_loop chat sentences (tab_end sentences i (end_index q_res) + 1)
                       (mark used i (tab_end sentences i (end_index q_res)))
                       (results @ [accepted_record sentences i q_res]) st'
                else tab_loop chat sentences (Suc i) used
                       (results @ [rejected_record sentences i q_res]) st'))
      else (results, st))"
  by pat_completeness auto
termination
  by (relation "measure (\<lambda>(chat, sentences, i, used, results, st). length sentences - i)")
     (auto simp: tab_end_def)

definition detect_table_captions :: "'o chat_fn \<Rightarrow> 'o \<Rightarrow> string list \<Rightarrow> caption list \<times> 'o" where
  "detect_table_captions chat st sentences =
     tab_loop chat sentences 0 (replicate (length sentences) False) [] st"

section \<open>Text extraction and one document: \<open>process_single_xml\<close>\<close>

text \<open>
  A parsed document is seen through the three XPath queries the source makes: the text
  nodes below an element named \<open>rawtext\<close>, those below an element named \<open>body\<close>, and
  all text nodes. A file that does not parse is \<open>None\<close>.
\<close>

record xml_doc =
  rawtext_nodes :: "string list"
  body_nodes :: "string list"
  all_nodes :: "string list"

definition extract_rawtext_from_xml :: "xml_doc option \<Rightarrow> string option" where
  \<comment> \<open>the extractor of the caption pipeline\<close>
  "extract_rawtext_from_xml doc =
     (case doc of
        None \<Rightarrow> None
      | Some root \<Rightarrow>
          if rawtext_nodes root = [] then None
          else Some (strip (join '' '' (py_split
                 (replace [CHR 0x0D] '' '' (join '' '' (rawtext_nodes root)))))))"

definition extract_text_from_xml :: "xml_doc option \<Rightarrow> string option" where
  \<comment> \<open>the extractor of the sentence-listing script\<close>
  "extract_text_from_xml doc =
     (case doc of
        None \<Rightarrow> None
      | Some root \<Rightarrow>
          if rawtext_nodes root \<noteq> [] then Some (join '' '' (py_split (join '' '' (rawtext_nodes root))))
          else if body_nodes root \<noteq> [] then Some (join '' '' (py_split (join '' '' (body_nodes root))))
          else if all_nodes root \<noteq> [] then Some (join '' '' (py_split (join '' '' (all_nodes root))))
          else None)"

definition with_file :: "string \<Rightarrow> caption \<Rightarrow> file_caption" where
  \<comment> \<open>\<open>rec = dict(r); rec["file"] = fname\<close>\<close>
  "with_file fname r = caption.extend r (file_caption.fields fname)"

definition process_single_xml ::
  "'o chat_fn \<Rightarrow> 'o \<Rightarrow> string \<Rightarrow> xml_doc option \<Rightarrow> file_caption list \<times> 'o" where
  "process_single_xml chat st fname doc =
     (case extract_rawtext_from_xml doc of
        None \<Rightarrow> ([], st)
      | Some rawtext \<Rightarrow>
          if rawtext = [] then ([], st)
          else
            (let sentences = split_sentences rawtext in
             if sentences = [] then ([], st)
             else
               (let fig_caps = detect_figure_captions sentences in
                case detect_table_captions chat st sentences of
                  (tab_caps, st') \<Rightarrow> (map (with_file fname) (fig_caps @ tab_caps), st'))))"

section \<open>What a pattern means\<close>

text \<open>
  The meaning of a pattern, apart from the order in which the matcher searches:
  \<open>parts_ok r p s parts\<close> says that \<open>parts\<close> cuts a prefix of \<open>s\<close> into one piece per
  item, each piece being what its item allows, with \<open>p\<close> the character before \<open>s\<close>.
  A pattern occurs in a text when some suffix of the text has such a cut.
\<close>

definition last_of :: "char option \<Rightarrow> string \<Rightarrow> char option" where
  "last_of p x = (if x = [] then p else Some (last x))"

fun item_ok :: "item \<Rightarrow> char option \<Rightarrow> string \<Rightarrow> string \<Rightarrow> bool" where
  "item_ok (Cls P) p s x = (length x = 1 \<and> list_all P x)"
| "item_ok (Star P) p s x = list_all P x"
| "item_ok (Opt P) p s x = (length x \<le> 1 \<and> list_all P x)"
| "item_ok WordB p s x = (x = [] \<and> word_opt p \<noteq> word_opt (next_char s))"
| "item_ok (Behind P) p s x = (x = [] \<and> (case p of None \<Rightarrow> False | Some c \<Rightarrow> P c))"

fun parts_ok :: "item list \<Rightarrow> char option \<Rightarrow> string \<Rightarrow> string list \<Rightarrow> bool" where
  "parts_ok [] p s parts = (parts = [])"
| "parts_ok (it # r) p s [] = False"
| "parts_ok (it # r) p s (x # xs) =
     (prefix x s \<and> item_ok it p (drop (length x) s) x \<and>
      parts_ok r (last_of p x) (drop (length x) s) xs)"

definition occurs :: "regex \<Rightarrow> string \<Rightarrow> bool" where
  "occurs re s \<longleftrightarrow>
     (\<exists>pre rest parts. s = pre @ rest \<and> parts_ok (map snd re) (last_of None pre) rest parts)"

definition matches :: "item list \<Rightarrow> char option \<Rightarrow> string \<Rightarrow> bool" where
  "matches r p s \<longleftrightarrow> (\<exists>parts. parts_ok r p s parts)"

text \<open>
  What \<open>FIG_PATTERN\<close> asks of a sentence, said without the matcher: somewhere in it,
  not directly after a word character, stand the letters \<open>fig\<close> in any case, a full
  stop, any number of white-space characters (none is allowed) and a digit.
\<close>

definition fig_start :: "string \<Rightarrow> bool" where
  "fig_start s \<longleftrightarrow>
     (\<exists>pre f ws d rest.
        s = pre @ f @ ''.'' @ ws @ d # rest \<and> map to_lower f = ''fig'' \<and>
        (pre = [] \<or> \<not> is_word (last pre)) \<and> list_all is_space ws \<and> is_digit d)"

text \<open>The characters an item can consume.\<close>

fun item_chars :: "item \<Rightarrow> char \<Rightarrow> bool" where
  "item_chars (Cls P) c = P c"
| "item_chars (Star P) c = P c"
| "item_chars (Opt P) c = P c"
| "item_chars WordB c = False"
| "item_chars (Behind P) c = False"

section \<open>Properties of a list of records\<close>

text \<open>
  \<open>spans_ordered\<close>: every record ends before each later record starts, so no two
  spans of the list share a sentence. \<open>answers chat\<close> are the results that
  \<open>call_qwen_table\<close> can hand to the table detector.
\<close>

fun spans_ordered :: "('a caption_scheme) list \<Rightarrow> bool" where
  "spans_ordered [] = True"
| "spans_ordered (r # rs) = ((\<forall>r' \<in> set rs. end_sent_idx r < start_sent_idx r') \<and> spans_ordered rs)"

definition answers :: "'o chat_fn \<Rightarrow> qres set" where
  "answers chat = {q. \<exists>st s0 s1 s2. q = fst (call_qwen_table chat st s0 s1 s2)}"

section \<open>Auxiliary facts\<close>

declare fig_loop.simps [simp del] tab_loop.simps [simp del] re_split.simps [simp del]

lemma spans_ordered_snoc:
  "spans_ordered (rs @ [r]) = (spans_ordered rs \<and> (\<forall>r' \<in> set rs. end_sent_idx r' < start_sent_idx r))"
  by (induction rs) auto

lemma length_mark [simp]: "length (mark used a b) = length used"
proof -
  have "length (fold (\<lambda>k u. u[k := True]) ks used) = length used" for ks
    by (induction ks arbitrary: used) auto
  then show ?thesis by (simp add: mark_def)
qed

lemma fold_mark_nth:
  "k < length used \<Longrightarrow> fold (\<lambda>k u. u[k := True]) ks used ! k = (used ! k \<or> k \<in> set ks)"
proof (induction ks arbitrary: used)
  case Nil
  then show ?case by simp
next
  case (Cons a ks)
  have "used[a := True] ! k = (used ! k \<or> k = a)"
    using Cons.prems by (cases "a < length used") (auto simp: nth_list_update)
  with Cons show ?case by auto
qed

lemma mark_nth: "k < length used \<Longrightarrow> mark used a b ! k = (used ! k \<or> (a \<le> k \<and> k \<le> b))"
  by (auto simp: mark_def fold_mark_nth)

lemma fig_end_bounds: "i < length sentences \<Longrightarrow> i \<le> fig_end sentences i \<and> fig_end sentences i < length sentences \<and> fig_end sentences i \<le> i + 2"
  by (auto simp: fig_end_def)

lemma figure_record_sel [simp]:
  "start_sent_idx (figure_record sentences i m) = int i"
  "end_sent_idx (figure_record sentences i m) = int (fig_end sentences i)"
  "cap_type (figure_record sentences i m) = ''FIGURE''"
  "raw_window (figure_record sentences i m) = slice sentences i (fig_end sentences i + 1)"
  by (simp_all add: figure_record_def)

lemma fig_loop_records:
  "r \<in> set (fig_loop sentences i used results) \<Longrightarrow>
   r \<in> set results \<or> (\<exists>j m. i \<le> j \<and> j < length sentences \<and> r = figure_record sentences j m)"
proof (induction sentences i used results rule: fig_loop.induct)
  case (1 sentences i used results)
  show ?case
  proof (cases "i < length sentences")
    case False
    with "1.prems" show ?thesis by (simp add: fig_loop.simps)
  next
    case lt: True
    show ?thesis
    proof (cases "used ! i")
      case True
      with lt "1.prems" have "r \<in> set (fig_loop sentences (Suc i) used results)"
        by (simp add: fig_loop.simps)
      from "1.IH"(1)[OF lt True this] show ?thesis by (auto intro: Suc_leD)
    next
      case nu: False
      show ?thesis
      proof (cases "re_search FIG_PATTERN (sentences ! i)")
        case None
        with lt nu "1.prems" have "r \<in> set (fig_loop sentences (Suc i) used results)"
          by (simp add: fig_loop.simps)
        from "1.IH"(2)[OF lt nu None this] show ?thesis by (auto intro: Suc_leD)
      next
        case (Some a)
        obtain m parts where a: "a = (m, parts)" by (cases a)
        with Some lt nu "1.prems"
        have "r \<in> set (fig_loop sentences (Suc i) (mark used i (fig_end sentences i))
                  (results @ [figure_record sentences i m]))"
          by (simp add: fig_loop.simps)
        from "1.IH"(3)[OF lt nu Some a[symmetric] this] lt show ?thesis
          by (auto intro: Suc_leD)
      qed
    qed
  qed
qed

lemma fig_loop_ordered:
  "spans_ordered results \<Longrightarrow> length used = length sentences \<Longrightarrow>
   (\<forall>r \<in> set results. start_sent_idx r < int i \<and>
      (\<forall>k. start_sent_idx r \<le> int k \<and> int k \<le> end_sent_idx r \<longrightarrow> k < length used \<and> used ! k)) \<Longrightarrow>
   spans_ordered (fig_loop sentences i used results)"
proof (induction sentences i used results rule: fig_loop.induct)
  case (1 sentences i used results)
  show ?case
  proof (cases "i < length sentences")
    case False
    with "1.prems" show ?thesis by (simp add: fig_loop.simps)
  next
    case lt: True
    have step: "\<forall>r \<in> set results. start_sent_idx r < int (Suc i) \<and>
      (\<forall>k. start_sent_idx r \<le> int k \<and> int k \<le> end_sent_idx r \<longrightarrow> k < length used \<and> used ! k)"
      using "1.prems"(3) by fastforce
    show ?thesis
    proof (cases "used ! i")
      case True
      from "1.IH"(1)[OF lt True "1.prems"(1,2) step] lt True show ?thesis
        by (simp add: fig_loop.simps)
    next
      case nu: False
      show ?thesis
      proof (cases "re_search FIG_PATTERN (sentences ! i)")
        case None
        from "1.IH"(2)[OF lt nu None "1.prems"(1,2) step] lt nu None show ?thesis
          by (simp add: fig_loop.simps)
      next
        case (Some a)
        obtain m parts where a: "a = (m, parts)" by (cases a)
        let ?e = "fig_end sentences i"
        let ?used = "mark used i ?e"
        let ?res = "results @ [figure_record sentences i m]"
        have e: "i \<le> ?e" "?e < length sentences"
          using fig_end_bounds[OF lt] by auto
        have before: "end_sent_idx r < int i" if "r \<in> set results" for r
        proof (rule ccontr)
          assume "\<not> end_sent_idx r < int i"
          with "1.prems"(3) that have "used ! i" by fastforce
          with nu show False by simp
        qed
        have o: "spans_ordered ?res"
          using "1.prems"(1) before by (simp add: spans_ordered_snoc)
        have l: "length ?used = length sentences"
          using "1.prems"(2) by simp
        have inv: "\<forall>r \<in> set ?res. start_sent_idx r < int (Suc i) \<and>
          (\<forall>k. start_sent_idx r \<le> int k \<and> int k \<le> end_sent_idx r \<longrightarrow> k < length ?used \<and> ?used ! k)"
        proof
          fix r assume "r \<in> set ?res"
          then consider "r \<in> set results" | "r = figure_record sentences i m" by auto
          then show "start_sent_idx r < int (Suc i) \<and>
            (\<forall>k. start_sent_idx r \<le> int k \<and> int k \<le> end_sent_idx r \<longrightarrow> k < length ?used \<and> ?used ! k)"
          proof cases
            case 1
            with step show ?thesis by (auto simp: mark_nth)
          next
            case 2
            with e "1.prems"(2) show ?thesis by (auto simp: mark_nth)
          qed
        qed
        from "1.IH"(3)[OF lt nu Some a[symmetric] o l inv] lt nu Some a show ?thesis
          by (simp add: fig_loop.simps)
      qed
    qed
  qed
qed

lemma detect_figure_ordered: "spans_ordered (detect_figure_captions sentences)"
  unfolding detect_figure_captions_def by (rule fig_loop_ordered) auto

lemma tab_end_bounds:
  "i < length sentences \<Longrightarrow> 0 \<le> e \<Longrightarrow>
   i \<le> tab_end sentences i e \<and> tab_end sentences i e < length sentences \<and>
   int (tab_end sentences i e) = min (int i + e) (int (length sentences) - 1)"
  by (auto simp: tab_end_def)

lemma accepted_record_sel [simp]:
  "start_sent_idx (accepted_record sentences i q) = int i"
  "end_sent_idx (accepted_record sentences i q) = int (tab_end sentences i (end_index q))"
  "cap_type (accepted_record sentences i q) = ''TABLE''"
  "source (accepted_record sentences i q) = ''LLM_TABLE''"
  "raw_window (accepted_record sentences i q) = [sentences ! i, window1 sentences i, window2 sentences i]"
  "table_label (accepted_record sentences i q) = Some (label q)"
  "table_end_in_window (accepted_record sentences i q) = Some (end_index q)"
  by (simp_all add: accepted_record_def Let_def)

lemma rejected_record_sel [simp]:
  "start_sent_idx (rejected_record sentences i q) = int i"
  "end_sent_idx (rejected_record sentences i q) = int i"
  "cap_type (rejected_record sentences i q) = ''TABLE''"
  "source (rejected_record sentences i q) = ''LLM_TABLE''"
  "raw_window (rejected_record sentences i q) = [sentences ! i, window1 sentences i, window2 sentences i]"
  "table_label (rejected_record sentences i q) = Some (label q)"
  "table_end_in_window (rejected_record sentences i q) = Some (end_index q)"
  by (simp_all add: rejected_record_def)

lemma tab_loop_step:
  assumes "i < length sentences" "\<not> used ! i" "re_search TABLE_KEYWORD_PAT (sentences ! i) \<noteq> None"
    and "call_qwen_table chat st (sentences ! i) (window1 sentences i) (window2 sentences i) = (q, st')"
  shows "tab_loop chat sentences i used results st =
     (if label q = ''TABLE_CAPTION'' \<and> end_index q \<ge> 0
      then tab_loop chat sentences (tab_end sentences i (end_index q) + 1)
             (mark used i (tab_end sentences i (end_index q)))
             (results @ [accepted_record sentences i q]) st'
      else tab_loop chat sentences (Suc i) used (results @ [rejected_record sentences i q]) st')"
  using assms by (subst tab_loop.simps) auto

lemma tab_loop_skip:
  assumes "i < length sentences" "used ! i \<or> re_search TABLE_KEYWORD_PAT (sentences ! i) = None"
  shows "tab_loop chat sentences i used results st = tab_loop chat sentences (Suc i) used results st"
  using assms by (subst tab_loop.simps) auto

lemma tab_loop_done:
  "\<not> i < length sentences \<Longrightarrow> tab_loop chat sentences i used results st = (results, st)"
  by (subst tab_loop.simps) simp

lemma tab_loop_records:
  "r \<in> set (fst (tab_loop chat sentences i used results st)) \<Longrightarrow>
   r \<in> set results \<or>
   (\<exists>j q. i \<le> j \<and> j < length sentences \<and> q \<in> answers chat \<and>
      (r = rejected_record sentences j q \<or>
       r = accepted_record sentences j q \<and> 0 \<le> end_index q))"
proof (induction chat sentences i used results st rule: tab_loop.induct)
  case (1 chat sentences i used results st)
  show ?case
  proof (cases "i < length sentences")
    case False
    with "1.prems" show ?thesis by (simp add: tab_loop_done)
  next
    case lt: True
    show ?thesis
    proof (cases "used ! i")
      case True
      with lt "1.prems" have "r \<in> set (fst (tab_loop chat sentences (Suc i) used results st))"
        by (simp add: tab_loop_skip)
      from "1.IH"(1)[OF lt True this] show ?thesis by (auto intro: Suc_leD)
    next
      case nu: False
      show ?thesis
      proof (cases "re_search TABLE_KEYWORD_PAT (sentences ! i) = None")
        case True
        with lt "1.prems" have "r \<in> set (fst (tab_loop chat sentences (Suc i) used results st))"
          by (simp add: tab_loop_skip)
        from "1.IH"(2)[OF lt nu True this] show ?thesis by (auto intro: Suc_leD)
      next
        case cand: False
        obtain q st' where c: "call_qwen_table chat st (sentences ! i) (window1 sentences i) (window2 sentences i) = (q, st')"
          by (cases "call_qwen_table chat st (sentences ! i) (window1 sentences i) (window2 sentences i)")
        have qa: "q \<in> answers chat"
          unfolding answers_def using c by (metis (mono_tags, lifting) fst_conv mem_Collect_eq)
        note step = tab_loop_step[OF lt nu cand c, of results]
        show ?thesis
        proof (cases "label q = ''TABLE_CAPTION'' \<and> end_index q \<ge> 0")
          case True
          with step "1.prems"
          have "r \<in> set (fst (tab_loop chat sentences (tab_end sentences i (end_index q) + 1)
             (mark used i (tab_end sentences i (end_index q)))
             (results @ [accepted_record sentences i q]) st'))" by simp
          from "1.IH"(3)[OF lt nu cand c[symmetric] True this]
          consider "r \<in> set results" | "r = accepted_record sentences i q"
            | j q' where "tab_end sentences i (end_index q) + 1 \<le> j" "j < length sentences"
                "q' \<in> answers chat"
                "r = rejected_record sentences j q' \<or> r = accepted_record sentences j q' \<and> 0 \<le> end_index q'"
            by auto
          then show ?thesis
          proof cases
            case 1
            then show ?thesis by simp
          next
            case 2
            with lt qa True show ?thesis by blast
          next
            case 3
            from 3(1) tab_end_bounds[OF lt, of "end_index q"] True have "i \<le> j" by simp
            with 3 show ?thesis by blast
          qed
        next
          case False
          with step "1.prems"
          have "r \<in> set (fst (tab_loop chat sentences (Suc i) used
             (results @ [rejected_record sentences i q]) st'))" by simp
          from "1.IH"(4)[OF lt nu cand c[symmetric] False this] lt qa
          show ?thesis by (auto intro: Suc_leD)
        qed
      qed
    qed
  qed
qed

lemma norm_label: "(if l \<notin> {a, b} then c else l) \<in> {a, b, c}"
  by auto

lemma norm_end: "(if e \<notin> {- 1, 0, 1, 2 :: int} then - 1 else e) \<in> {- 1, 0, 1, 2}"
  by auto

lemma parse_normalized:
  "label (parse_table_response text) \<in> {''TABLE_CAPTION'', ''NOT_CAPTION'', ''PARSE_ERROR''} \<and>
   end_index (parse_table_response text) \<in> {- 1, 0, 1, 2}"
proof -
  let ?t = "one_line (from_label text)"
  show ?thesis
  proof (cases "re_search PARSE_RE ?t")
    case None
    then have "parse_table_response text =
      \<lparr>label = ''PARSE_ERROR'', end_index = - 1, reason = ''raw: '' @ take 200 ?t\<rparr>"
      by (simp add: parse_table_response_def)
    then have "label (parse_table_response text) = ''PARSE_ERROR''"
      and "end_index (parse_table_response text) = - 1"
      by simp_all
    then show ?thesis by (simp only: insertI1 insertI2 simp_thms)
  next
    case (Some a)
    obtain k parts where a: "a = (k, parts)" by (cases a)
    define lab where "lab = upper (group PARSE_RE parts 1)"
    define e where "e = (case py_int (group PARSE_RE parts 2) of Some v \<Rightarrow> v | None \<Rightarrow> - 1)"
    have "parse_table_response text =
      \<lparr>label = (if lab \<notin> {''TABLE_CAPTION'', ''NOT_CAPTION''} then ''PARSE_ERROR'' else lab),
       end_index = (if e \<notin> {- 1, 0, 1, 2} then - 1 else e),
       reason = strip (group PARSE_RE parts 3)\<rparr>"
      using Some a by (simp add: parse_table_response_def Let_def lab_def e_def)
    then have l: "label (parse_table_response text) =
        (if lab \<notin> {''TABLE_CAPTION'', ''NOT_CAPTION''} then ''PARSE_ERROR'' else lab)"
      and n: "end_index (parse_table_response text) = (if e \<notin> {- 1, 0, 1, 2} then - 1 else e)"
      by simp_all
    have "label (parse_table_response text) \<in> {''TABLE_CAPTION'', ''NOT_CAPTION'', ''PARSE_ERROR''}"
      unfolding l by (rule norm_label)
    moreover have "end_index (parse_table_response text) \<in> {- 1, 0, 1, 2}"
      unfolding n by (rule norm_end)
    ultimately show ?thesis by (rule conjI)
  qed
qed

lemma parse_end_normalized: "end_index (parse_table_response text) \<in> {- 1, 0, 1, 2}"
  using parse_normalized by (rule conjunct2)


lemma answers_range: "q \<in> answers chat \<Longrightarrow> end_index q \<in> {- 1, 0, 1, 2}"
proof -
  assume "q \<in> answers chat"
  then obtain st s0 s1 s2 where q: "q = fst (call_qwen_table chat st s0 s1 s2)"
    by (auto simp: answers_def)
  show ?thesis
  proof (cases "chat st s0 s1 s2")
    case (Pair a st')
    then show ?thesis
      using parse_end_normalized q by (cases a) (simp_all add: call_qwen_table_def)
  qed
qed

lemma tab_loop_accept:
  assumes "i < length sentences" "\<not> used ! i" "re_search TABLE_KEYWORD_PAT (sentences ! i) \<noteq> None"
    and "call_qwen_table chat st (sentences ! i) (window1 sentences i) (window2 sentences i) = (q, st')"
    and "label q = ''TABLE_CAPTION'' \<and> end_index q \<ge> 0"
  shows "tab_loop chat sentences i used results st =
     tab_loop chat sentences (tab_end sentences i (end_index q) + 1)
             (mark used i (tab_end sentences i (end_index q)))
             (results @ [accepted_record sentences i q]) st'"
  unfolding tab_loop_step[OF assms(1-4)] using assms(5) by (rule if_P)

lemma tab_loop_reject:
  assumes "i < length sentences" "\<not> used ! i" "re_search TABLE_KEYWORD_PAT (sentences ! i) \<noteq> None"
    and "call_qwen_table chat st (sentences ! i) (window1 sentences i) (window2 sentences i) = (q, st')"
    and "\<not> (label q = ''TABLE_CAPTION'' \<and> end_index q \<ge> 0)"
  shows "tab_loop chat sentences i used results st =
     tab_loop chat sentences (Suc i) used (results @ [rejected_record sentences i q]) st'"
  unfolding tab_loop_step[OF assms(1-4)] using assms(5) by (rule if_not_P)

lemma tab_loop_ordered:
  "spans_ordered results \<Longrightarrow> (\<forall>r \<in> set results. end_sent_idx r < int i) \<Longrightarrow>
   spans_ordered (fst (tab_loop chat sentences i used results st))"
proof (induction chat sentences i used results st rule: tab_loop.induct)
  case (1 chat sentences i used results st)
  show ?case
  proof (cases "i < length sentences")
    case False
    with "1.prems" show ?thesis by (simp add: tab_loop_done)
  next
    case lt: True
    have step: "\<forall>r \<in> set results. end_sent_idx r < int (Suc i)"
      using "1.prems"(2) by fastforce
    show ?thesis
    proof (cases "used ! i")
      case True
      have eq: "tab_loop chat sentences i used results st = tab_loop chat sentences (Suc i) used results st"
        using lt True by (intro tab_loop_skip) auto
      show ?thesis unfolding eq by (rule "1.IH"(1)[OF lt True "1.prems"(1) step])
    next
      case nu: False
      show ?thesis
      proof (cases "re_search TABLE_KEYWORD_PAT (sentences ! i) = None")
        case True
        have eq: "tab_loop chat sentences i used results st = tab_loop chat sentences (Suc i) used results st"
          using lt True by (intro tab_loop_skip) auto
        show ?thesis unfolding eq by (rule "1.IH"(2)[OF lt nu True "1.prems"(1) step])
      next
        case cand: False
        obtain q st' where c: "call_qwen_table chat st (sentences ! i) (window1 sentences i) (window2 sentences i) = (q, st')"
          by (cases "call_qwen_table chat st (sentences ! i) (window1 sentences i) (window2 sentences i)")
        show ?thesis
        proof (cases "label q = ''TABLE_CAPTION'' \<and> end_index q \<ge> 0")
          case True
          let ?e = "tab_end sentences i (end_index q)"
          have "0 \<le> end_index q" using True by (rule conjunct2)
          then have e: "i \<le> ?e" using tab_end_bounds[OF lt, of "end_index q"] by blast
          have "\<forall>r' \<in> set results. end_sent_idx r' < start_sent_idx (accepted_record sentences i q)"
            using "1.prems"(2) by (simp only: accepted_record_sel)
          then have o: "spans_ordered (results @ [accepted_record sentences i q])"
            using "1.prems"(1) by (simp only: spans_ordered_snoc simp_thms)
          have inv: "\<forall>r \<in> set (results @ [accepted_record sentences i q]). end_sent_idx r < int (?e + 1)"
          proof
            fix r assume "r \<in> set (results @ [accepted_record sentences i q])"
            then consider "r \<in> set results" | "r = accepted_record sentences i q" by auto
            then show "end_sent_idx r < int (?e + 1)"
            proof cases
              case 1
              with "1.prems"(2) have "end_sent_idx r < int i" by blast
              with e show ?thesis by linarith
            next
              case 2
              have "end_sent_idx (accepted_record sentences i q) = int ?e"
                by (rule accepted_record_sel)
              with 2 show ?thesis by simp
            qed
          qed
          show ?thesis
            unfolding tab_loop_accept[OF lt nu cand c True]
            by (rule "1.IH"(3)[OF lt nu cand c[symmetric] True o inv])
        next
          case False
          have "\<forall>r' \<in> set results. end_sent_idx r' < start_sent_idx (rejected_record sentences i q)"
            using "1.prems"(2) by (simp only: rejected_record_sel)
          then have o: "spans_ordered (results @ [rejected_record sentences i q])"
            using "1.prems"(1) by (simp only: spans_ordered_snoc simp_thms)
          have inv: "\<forall>r \<in> set (results @ [rejected_record sentences i q]). end_sent_idx r < int (Suc i)"
          proof
            fix r assume "r \<in> set (results @ [rejected_record sentences i q])"
            then consider "r \<in> set results" | "r = rejected_record sentences i q" by auto
            then show "end_sent_idx r < int (Suc i)"
            proof cases
              case 1
              with step show ?thesis by blast
            next
              case 2
              have "end_sent_idx (rejected_record sentences i q) = int i"
                by (rule rejected_record_sel)
              with 2 show ?thesis by simp
            qed
          qed
          show ?thesis
            unfolding tab_loop_reject[OF lt nu cand c False]
            by (rule "1.IH"(4)[OF lt nu cand c[symmetric] False o inv])
        qed
      qed
    qed
  qed
qed

lemma detect_table_ordered: "spans_ordered (fst (detect_table_captions chat st sentences))"
  unfolding detect_table_captions_def by (rule tab_loop_ordered) auto

lemma detect_figure_records:
  "r \<in> set (detect_figure_captions sentences) \<Longrightarrow>
   \<exists>j m. j < length sentences \<and> r = figure_record sentences j m"
  unfolding detect_figure_captions_def by (drule fig_loop_records) auto

lemma detect_table_records:
  "r \<in> set (fst (detect_table_captions chat st sentences)) \<Longrightarrow>
   \<exists>j q. j < length sentences \<and> q \<in> answers chat \<and>
      (r = rejected_record sentences j q \<or>
       r = accepted_record sentences j q \<and> 0 \<le> end_index q)"
  unfolding detect_table_captions_def by (drule tab_loop_records) auto

lemma figure_record_span:
  assumes "j < length sentences"
  shows "0 \<le> start_sent_idx (figure_record sentences j m) \<and>
     start_sent_idx (figure_record sentences j m) \<le> end_sent_idx (figure_record sentences j m) \<and>
     end_sent_idx (figure_record sentences j m) \<le> int (length sentences) - 1"
  using fig_end_bounds[OF assms] by (simp only: figure_record_sel) linarith

lemma rejected_record_span:
  assumes "j < length sentences"
  shows "0 \<le> start_sent_idx (rejected_record sentences j q) \<and>
     start_sent_idx (rejected_record sentences j q) \<le> end_sent_idx (rejected_record sentences j q) \<and>
     end_sent_idx (rejected_record sentences j q) \<le> int (length sentences) - 1"
  using assms by (simp only: rejected_record_sel) linarith

lemma accepted_record_span:
  assumes "j < length sentences" "0 \<le> end_index q"
  shows "0 \<le> start_sent_idx (accepted_record sentences j q) \<and>
     start_sent_idx (accepted_record sentences j q) \<le> end_sent_idx (accepted_record sentences j q) \<and>
     end_sent_idx (accepted_record sentences j q) \<le> int (length sentences) - 1"
  using tab_end_bounds[OF assms] by (simp only: accepted_record_sel) linarith


lemma figure_record_window:
  assumes "j < length sentences"
  shows "cap_type (figure_record sentences j m) = ''FIGURE'' \<and>
     raw_window (figure_record sentences j m) =
       slice sentences (nat (start_sent_idx (figure_record sentences j m)))
         (nat (end_sent_idx (figure_record sentences j m)) + 1) \<and>
     raw_window (figure_record sentences j m) \<noteq> []"
proof -
  have "slice sentences j (fig_end sentences j + 1) \<noteq> []"
    using fig_end_bounds[OF assms] assms by (simp add: slice_def)
  then show ?thesis by (simp only: figure_record_sel nat_int simp_thms)
qed

lemma rejected_record_window:
  "cap_type (rejected_record sentences j q) = ''TABLE'' \<and>
   raw_window (rejected_record sentences j q) =
     [sentences ! nat (start_sent_idx (rejected_record sentences j q)),
      window1 sentences (nat (start_sent_idx (rejected_record sentences j q))),
      window2 sentences (nat (start_sent_idx (rejected_record sentences j q)))]"
  by (simp only: rejected_record_sel nat_int simp_thms)

lemma accepted_record_window:
  "cap_type (accepted_record sentences j q) = ''TABLE'' \<and>
   raw_window (accepted_record sentences j q) =
     [sentences ! nat (start_sent_idx (accepted_record sentences j q)),
      window1 sentences (nat (start_sent_idx (accepted_record sentences j q))),
      window2 sentences (nat (start_sent_idx (accepted_record sentences j q)))]"
  by (simp only: accepted_record_sel nat_int simp_thms)


lemma call_answers:
  "call_qwen_table chat st s0 s1 s2 = (q, st') \<Longrightarrow> q \<in> answers chat"
  unfolding answers_def by (metis (mono_tags, lifting) fst_conv mem_Collect_eq)

lemma call_raises:
  assumes "call_qwen_table chat st s0 s1 s2 = (q, st')" "fst (chat st s0 s1 s2) = Inl msg"
  shows "q = \<lparr>label = ''ERROR'', end_index = - 1, reason = ''Qwen call error: '' @ msg\<rparr>"
proof (cases "chat st s0 s1 s2")
  case (Pair a b)
  with assms(2) have "a = Inl msg" by simp
  with Pair assms(1) show ?thesis by (simp add: call_qwen_table_def)
qed

lemma error_not_caption: "''ERROR'' \<noteq> ''TABLE_CAPTION''"
  by simp

lemma skip_Some [simp]: "skip r = Some ps \<longleftrightarrow> (\<exists>xs. r = Some xs \<and> ps = [] # xs)"
  by (cases r) (auto simp: skip_def)

lemma skip_None [simp]: "skip r = None \<longleftrightarrow> r = None"
  by (simp add: skip_def)

lemma last_of_Nil [simp]: "last_of p [] = p"
  by (simp add: last_of_def)

lemma last_of_single [simp]: "last_of p [c] = Some c"
  by (simp add: last_of_def)

lemma last_of_Cons: "last_of p (c # x) = last_of (Some c) x"
  by (simp add: last_of_def)

lemma last_of_append: "last_of p (x @ y) = last_of (last_of p x) y"
  by (simp add: last_of_def)

lemma rmatch_sound: "rmatch r p s = Some parts \<Longrightarrow> parts_ok r p s parts"
proof (induction r p s arbitrary: parts rule: rmatch.induct)
  case (1 p s)
  then show ?case by simp
next
  case (2 P r p)
  then show ?case by simp
next
  case (3 P r p c cs)
  then show ?case by (auto split: if_splits)
next
  case (4 P r p)
  then show ?case by auto
next
  case (5 P r p c cs)
  show ?case
  proof (cases "P c")
    case False
    with 5 show ?thesis by auto
  next
    case True
    show ?thesis
    proof (cases "rmatch (Star P # r) (Some c) cs")
      case None
      with True 5 show ?thesis by auto
    next
      case (Some ps)
      show ?thesis
      proof (cases ps)
        case Nil
        with Some True 5 show ?thesis by auto
      next
        case (Cons x xs)
        with Some True "5.prems" have parts: "parts = (c # x) # xs" by simp
        from "5.IH"(1)[OF True Some] Cons have "parts_ok (Star P # r) (Some c) cs (x # xs)" by simp
        with True parts show ?thesis by (simp add: last_of_Cons)
      qed
    qed
  qed
next
  case (6 P r p)
  then show ?case by auto
next
  case (7 P r p c cs)
  show ?case
  proof (cases "P c")
    case False
    with 7 show ?thesis by auto
  next
    case True
    show ?thesis
    proof (cases "rmatch r (Some c) cs")
      case None
      with True 7 show ?thesis by auto
    next
      case (Some xs)
      with True "7.prems" have parts: "parts = [c] # xs" by simp
      from "7.IH"(1)[OF True Some] True parts show ?thesis by simp
    qed
  qed
next
  case (8 r p s)
  then show ?case by (auto split: if_splits)
next
  case (9 P r p s)
  then show ?case by (auto split: option.splits if_splits)
qed

lemma rmatch_complete: "parts_ok r p s parts \<Longrightarrow> rmatch r p s \<noteq> None"
proof (induction r p s arbitrary: parts rule: rmatch.induct)
  case (1 p s)
  then show ?case by simp
next
  case (2 P r p)
  then show ?case by (cases parts) (auto simp: length_Suc_conv)
next
  case (3 P r p c cs)
  then obtain x xs where parts: "parts = x # xs" by (cases parts) auto
  with "3.prems" have x: "x = [c]" "P c" and rest: "parts_ok r (Some c) cs xs"
    by (auto simp: length_Suc_conv)
  from "3.IH"[OF x(2) rest] x show ?case by simp
next
  case (4 P r p)
  then obtain x xs where parts: "parts = x # xs" by (cases parts) auto
  with "4.prems" have "x = []" and "parts_ok r p [] xs" by auto
  with "4.IH" show ?case by auto
next
  case (5 P r p c cs)
  then obtain x xs where parts: "parts = x # xs" by (cases parts) auto
  show ?case
  proof (cases x)
    case Nil
    with parts "5.prems" have rest: "parts_ok r p (c # cs) xs" by simp
    show ?thesis
    proof (cases "P c")
      case True
      show ?thesis
      proof (cases "rmatch (Star P # r) (Some c) cs")
        case None
        from "5.IH"(2)[OF True None rest] True None show ?thesis by simp
      next
        case (Some ps)
        show ?thesis
        proof (cases ps)
          case Nil
          from "5.IH"(3)[OF True Some Nil rest] True Some Nil show ?thesis by simp
        next
          case (Cons y ys)
          with True Some show ?thesis by simp
        qed
      qed
    next
      case False
      with "5.IH"(4)[OF False rest] show ?thesis by simp
    qed
  next
    case (Cons d x')
    with parts "5.prems" have d: "d = c" and Pc: "P c"
      and rest: "parts_ok (Star P # r) (Some c) cs (x' # xs)"
      by (auto simp: last_of_Cons)
    from "5.IH"(1)[OF Pc rest] obtain ps where ps: "rmatch (Star P # r) (Some c) cs = Some ps" by auto
    from rmatch_sound[OF ps] have "ps \<noteq> []" by auto
    with ps Pc show ?thesis by (auto split: list.splits)
  qed
next
  case (6 P r p)
  then obtain x xs where parts: "parts = x # xs" by (cases parts) auto
  with "6.prems" have "x = []" and "parts_ok r p [] xs" by auto
  with "6.IH" show ?case by auto
next
  case (7 P r p c cs)
  then obtain x xs where parts: "parts = x # xs" by (cases parts) auto
  show ?case
  proof (cases x)
    case Nil
    with parts "7.prems" have rest: "parts_ok r p (c # cs) xs" by simp
    show ?thesis
    proof (cases "P c")
      case True
      show ?thesis
      proof (cases "rmatch r (Some c) cs")
        case None
        from "7.IH"(2)[OF True None rest] True None show ?thesis by simp
      next
        case (Some ps)
        with True show ?thesis by simp
      qed
    next
      case False
      with "7.IH"(3)[OF False rest] show ?thesis by simp
    qed
  next
    case (Cons d x')
    with parts "7.prems" have x: "x = [c]" and Pc: "P c" and rest: "parts_ok r (Some c) cs xs"
      by auto
    from "7.IH"(1)[OF Pc rest] Pc show ?thesis by auto
  qed
next
  case (8 r p s)
  then obtain x xs where parts: "parts = x # xs" by (cases parts) auto
  with "8.prems" have b: "word_opt p \<noteq> word_opt (next_char s)" and rest: "parts_ok r p s xs" by auto
  from "8.IH"[OF b rest] b show ?case by simp
next
  case (9 P r p s)
  then obtain x xs where parts: "parts = x # xs" by (cases parts) auto
  with "9.prems" obtain c where p: "p = Some c" "P c" and rest: "parts_ok r p s xs"
    by (auto split: option.splits)
  from "9.IH"[OF p rest] p show ?case by simp
qed

lemma rmatch_iff_matches: "rmatch r p s \<noteq> None \<longleftrightarrow> matches r p s"
  unfolding matches_def using rmatch_sound rmatch_complete by blast

lemma search_from_None:
  "search_from r p k s = None \<longleftrightarrow> (\<forall>pre rest. s = pre @ rest \<longrightarrow> rmatch r (last_of p pre) rest = None)"
proof (induction s arbitrary: p k)
  case Nil
  show ?case by (auto split: option.splits)
next
  case (Cons c cs)
  show ?case
  proof
    assume n: "search_from r p k (c # cs) = None"
    then have a: "rmatch r p (c # cs) = None" and b: "search_from r (Some c) (Suc k) cs = None"
      by (auto split: option.splits)
    show "\<forall>pre rest. c # cs = pre @ rest \<longrightarrow> rmatch r (last_of p pre) rest = None"
    proof (intro allI impI)
      fix pre rest assume e: "c # cs = pre @ rest"
      show "rmatch r (last_of p pre) rest = None"
      proof (cases pre)
        case Nil
        with e a show ?thesis by simp
      next
        case (Cons d pre')
        with e have "cs = pre' @ rest" "d = c" by auto
        with b Cons.IH[of "Some c" "Suc k"] Cons show ?thesis by (simp add: last_of_Cons)
      qed
    qed
  next
    assume a: "\<forall>pre rest. c # cs = pre @ rest \<longrightarrow> rmatch r (last_of p pre) rest = None"
    from a[rule_format, of "[]" "c # cs"] have 1: "rmatch r p (c # cs) = None" by simp
    have "\<forall>pre rest. cs = pre @ rest \<longrightarrow> rmatch r (last_of (Some c) pre) rest = None"
    proof (intro allI impI)
      fix pre rest assume "cs = pre @ rest"
      with a[rule_format, of "c # pre" rest] show "rmatch r (last_of (Some c) pre) rest = None"
        by (simp add: last_of_Cons)
    qed
    with Cons.IH[of "Some c" "Suc k"] have "search_from r (Some c) (Suc k) cs = None" by simp
    with 1 show "search_from r p k (c # cs) = None" by simp
  qed
qed

lemma search_from_Some:
  "search_from r p k s = Some (j, parts) \<Longrightarrow>
   \<exists>pre rest. s = pre @ rest \<and> j = k + length pre \<and> rmatch r (last_of p pre) rest = Some parts"
proof (induction s arbitrary: p k)
  case Nil
  then show ?case by (auto split: option.splits)
next
  case (Cons c cs)
  show ?case
  proof (cases "rmatch r p (c # cs)")
    case (Some ps)
    with Cons.prems have "j = k" "parts = ps" by auto
    with Some show ?thesis by (intro exI[of _ "[]"] exI[of _ "c # cs"]) simp
  next
    case None
    with Cons.prems have "search_from r (Some c) (Suc k) cs = Some (j, parts)" by simp
    from Cons.IH[OF this] obtain pre rest
      where "cs = pre @ rest" "j = Suc k + length pre" "rmatch r (last_of (Some c) pre) rest = Some parts"
      by blast
    then show ?thesis
      by (intro exI[of _ "c # pre"] exI[of _ rest]) (simp add: last_of_Cons)
  qed
qed

lemma re_search_occurs: "re_search re s \<noteq> None \<longleftrightarrow> occurs re s"
proof -
  have "re_search re s = None \<longleftrightarrow> \<not> occurs re s"
    unfolding re_search_def occurs_def search_from_None
    using rmatch_sound rmatch_complete by (metis option.exhaust)
  then show ?thesis by simp
qed

lemma re_search_Some:
  assumes "re_search re s = Some (k, parts)"
  shows "k \<le> length s \<and> parts_ok (map snd re) (last_of None (take k s)) (drop k s) parts"
proof -
  from search_from_Some[OF assms[unfolded re_search_def]] obtain pre rest
    where s: "s = pre @ rest" and k: "k = length pre"
      and m: "rmatch (map snd re) (last_of None pre) rest = Some parts" by auto
  from rmatch_sound[OF m] s k show ?thesis by simp
qed

lemma occurs_matches:
  "occurs re s \<longleftrightarrow> (\<exists>pre rest. s = pre @ rest \<and> matches (map snd re) (last_of None pre) rest)"
  unfolding occurs_def matches_def by blast

lemma matches_Nil [simp]: "matches [] p s"
  unfolding matches_def by (rule exI[of _ "[]"]) simp

lemma matches_Cls:
  "matches (Cls P # r) p s \<longleftrightarrow> (\<exists>c cs. s = c # cs \<and> P c \<and> matches r (Some c) cs)"
proof
  assume "matches (Cls P # r) p s"
  then obtain parts where ok: "parts_ok (Cls P # r) p s parts" unfolding matches_def by blast
  then obtain x xs where parts: "parts = x # xs" by (cases parts) auto
  with ok obtain c where x: "x = [c]" "P c" by (auto simp: length_Suc_conv)
  with ok parts obtain cs where "s = c # cs" by (cases s) auto
  with ok parts x have "parts_ok r (Some c) cs xs" by simp
  with \<open>s = c # cs\<close> x show "\<exists>c cs. s = c # cs \<and> P c \<and> matches r (Some c) cs"
    unfolding matches_def by blast
next
  assume "\<exists>c cs. s = c # cs \<and> P c \<and> matches r (Some c) cs"
  then obtain c cs xs where "s = c # cs" "P c" "parts_ok r (Some c) cs xs"
    unfolding matches_def by blast
  then have "parts_ok (Cls P # r) p s ([c] # xs)" by simp
  then show "matches (Cls P # r) p s" unfolding matches_def by blast
qed

lemma matches_Star:
  "matches (Star P # r) p s \<longleftrightarrow> (\<exists>x s'. s = x @ s' \<and> list_all P x \<and> matches r (last_of p x) s')"
proof
  assume "matches (Star P # r) p s"
  then obtain parts where ok: "parts_ok (Star P # r) p s parts" unfolding matches_def by blast
  then obtain x xs where parts: "parts = x # xs" by (cases parts) auto
  with ok have "prefix x s" and P: "list_all P x"
    and r: "parts_ok r (last_of p x) (drop (length x) s) xs" by auto
  then obtain zs where s: "s = x @ zs" by (auto simp: prefix_def)
  with r have "matches r (last_of p x) zs" unfolding matches_def by auto
  with s P show "\<exists>x s'. s = x @ s' \<and> list_all P x \<and> matches r (last_of p x) s'"
    by blast
next
  assume "\<exists>x s'. s = x @ s' \<and> list_all P x \<and> matches r (last_of p x) s'"
  then obtain x s' xs where "s = x @ s'" "list_all P x" "parts_ok r (last_of p x) s' xs"
    unfolding matches_def by blast
  then have "parts_ok (Star P # r) p s (x # xs)" by simp
  then show "matches (Star P # r) p s" unfolding matches_def by blast
qed

lemma matches_Opt:
  "matches (Opt P # r) p s \<longleftrightarrow>
     (matches r p s \<or> (\<exists>c cs. s = c # cs \<and> P c \<and> matches r (Some c) cs))"
proof
  assume "matches (Opt P # r) p s"
  then obtain parts where ok: "parts_ok (Opt P # r) p s parts" unfolding matches_def by blast
  then obtain x xs where parts: "parts = x # xs" by (cases parts) auto
  show "matches r p s \<or> (\<exists>c cs. s = c # cs \<and> P c \<and> matches r (Some c) cs)"
  proof (cases x)
    case Nil
    with ok parts show ?thesis unfolding matches_def by auto
  next
    case (Cons c x')
    with ok parts have x: "x = [c]" "P c" by auto
    with ok parts obtain cs where "s = c # cs" by (cases s) auto
    with ok parts x show ?thesis unfolding matches_def by auto
  qed
next
  assume "matches r p s \<or> (\<exists>c cs. s = c # cs \<and> P c \<and> matches r (Some c) cs)"
  then show "matches (Opt P # r) p s"
  proof
    assume "matches r p s"
    then obtain xs where "parts_ok r p s xs" unfolding matches_def by blast
    then have "parts_ok (Opt P # r) p s ([] # xs)" by simp
    then show ?thesis unfolding matches_def by blast
  next
    assume "\<exists>c cs. s = c # cs \<and> P c \<and> matches r (Some c) cs"
    then obtain c cs xs where "s = c # cs" "P c" "parts_ok r (Some c) cs xs"
      unfolding matches_def by blast
    then have "parts_ok (Opt P # r) p s ([c] # xs)" by simp
    then show ?thesis unfolding matches_def by blast
  qed
qed

lemma matches_WordB:
  "matches (WordB # r) p s \<longleftrightarrow> (word_opt p \<noteq> word_opt (next_char s) \<and> matches r p s)"
proof
  assume "matches (WordB # r) p s"
  then obtain parts where ok: "parts_ok (WordB # r) p s parts" unfolding matches_def by blast
  then obtain x xs where parts: "parts = x # xs" by (cases parts) auto
  with ok show "word_opt p \<noteq> word_opt (next_char s) \<and> matches r p s"
    unfolding matches_def by auto
next
  assume a: "word_opt p \<noteq> word_opt (next_char s) \<and> matches r p s"
  then obtain xs where "parts_ok r p s xs" unfolding matches_def by blast
  with a have "parts_ok (WordB # r) p s ([] # xs)" by simp
  then show "matches (WordB # r) p s" unfolding matches_def by blast
qed

lemma matches_Behind:
  "matches (Behind P # r) p s \<longleftrightarrow> ((\<exists>c. p = Some c \<and> P c) \<and> matches r p s)"
proof
  assume "matches (Behind P # r) p s"
  then obtain parts where ok: "parts_ok (Behind P # r) p s parts" unfolding matches_def by blast
  then obtain x xs where parts: "parts = x # xs" by (cases parts) auto
  with ok show "(\<exists>c. p = Some c \<and> P c) \<and> matches r p s"
    unfolding matches_def by (auto split: option.splits)
next
  assume a: "(\<exists>c. p = Some c \<and> P c) \<and> matches r p s"
  then obtain xs where "parts_ok r p s xs" unfolding matches_def by blast
  with a have "parts_ok (Behind P # r) p s ([] # xs)" by auto
  then show "matches (Behind P # r) p s" unfolding matches_def by blast
qed

lemma to_lower_Fig:
  "to_lower CHR ''F'' = CHR ''f''" "to_lower CHR ''i'' = CHR ''i''" "to_lower CHR ''g'' = CHR ''g''"
  by code_simp+

lemma is_upper_word: "is_upper c \<Longrightarrow> is_word c"
  by (simp add: is_word_def is_letter_def Let_def)

lemma is_lower_word: "is_lower c \<Longrightarrow> is_word c"
  by (simp add: is_word_def is_letter_def Let_def)

lemma to_lower_word: "is_lower (to_lower c) \<Longrightarrow> is_word c"
  by (cases "is_upper c") (auto simp: to_lower_def is_upper_word is_lower_word)

lemma is_lower_f: "is_lower CHR ''f''"
  by code_simp

lemma FIG_PATTERN_items:
  "map snd FIG_PATTERN =
     [WordB, Cls (\<lambda>x. to_lower x = CHR ''f''), Cls (\<lambda>x. to_lower x = CHR ''i''),
      Cls (\<lambda>x. to_lower x = CHR ''g''), Cls (\<lambda>x. x = CHR ''.''),
      Star is_space, Cls is_digit, Star is_digit]"
  by (simp add: FIG_PATTERN_def lit_i_def chr_def to_lower_Fig)

lemma word_opt_last_of: "word_opt (last_of None pre) \<longleftrightarrow> pre \<noteq> [] \<and> is_word (last pre)"
  by (simp add: word_opt_def last_of_def)

lemma matches_FIG:
  "matches (map snd FIG_PATTERN) p s \<longleftrightarrow>
     (\<not> word_opt p \<and>
      (\<exists>c0 c1 c2 ws d rest. s = c0 # c1 # c2 # CHR ''.'' # ws @ d # rest \<and>
         to_lower c0 = CHR ''f'' \<and> to_lower c1 = CHR ''i'' \<and> to_lower c2 = CHR ''g'' \<and>
         list_all is_space ws \<and> is_digit d))"
  (is "?L \<longleftrightarrow> ?R")
proof
  assume ?L
  then obtain c0 c1 c2 ws d ds rest where
    b: "word_opt p \<noteq> word_opt (next_char s)" and
    s: "s = c0 # c1 # c2 # CHR ''.'' # ws @ d # ds @ rest" and
    c: "to_lower c0 = CHR ''f''" "to_lower c1 = CHR ''i''" "to_lower c2 = CHR ''g''" and
    w: "list_all is_space ws" and d: "is_digit d"
    unfolding FIG_PATTERN_items matches_WordB matches_Cls matches_Star by blast
  from c(1) have "is_word c0" using to_lower_word[of c0] is_lower_f by simp
  with b s have "\<not> word_opt p" by (simp add: next_char_def word_opt_def)
  with s c w d show ?R by blast
next
  assume ?R
  then obtain c0 c1 c2 ws d rest where
    b: "\<not> word_opt p" and
    s: "s = c0 # c1 # c2 # CHR ''.'' # ws @ d # rest" and
    c: "to_lower c0 = CHR ''f''" "to_lower c1 = CHR ''i''" "to_lower c2 = CHR ''g''" and
    w: "list_all is_space ws" and d: "is_digit d" by blast
  from c(1) have "is_word c0" using to_lower_word[of c0] is_lower_f by simp
  with b s have b': "word_opt p \<noteq> word_opt (next_char s)" by (simp add: next_char_def word_opt_def)
  have m7: "matches [Star is_digit] (Some d) rest"
    unfolding matches_Star by (intro exI[of _ "[]"] exI[of _ rest]) simp
  have "matches [Cls is_digit, Star is_digit] (last_of (Some CHR ''.'') ws) (d # rest)"
    unfolding matches_Cls using d m7 by blast
  with w have "matches [Star is_space, Cls is_digit, Star is_digit] (Some CHR ''.'') (ws @ d # rest)"
    unfolding matches_Star[of is_space] by blast
  then have "matches [Cls (\<lambda>x. x = CHR ''.''), Star is_space, Cls is_digit, Star is_digit]
      (Some c2) (CHR ''.'' # ws @ d # rest)"
    unfolding matches_Cls[of "\<lambda>x. x = CHR ''.''"] by blast
  then have "matches [Cls (\<lambda>x. to_lower x = CHR ''g''), Cls (\<lambda>x. x = CHR ''.''), Star is_space, Cls is_digit, Star is_digit]
      (Some c1) (c2 # CHR ''.'' # ws @ d # rest)"
    unfolding matches_Cls[of "\<lambda>x. to_lower x = CHR ''g''"] using c(3) by blast
  then have "matches [Cls (\<lambda>x. to_lower x = CHR ''i''), Cls (\<lambda>x. to_lower x = CHR ''g''), Cls (\<lambda>x. x = CHR ''.''), Star is_space, Cls is_digit, Star is_digit]
      (Some c0) (c1 # c2 # CHR ''.'' # ws @ d # rest)"
    unfolding matches_Cls[of "\<lambda>x. to_lower x = CHR ''i''"] using c(2) by blast
  then have "matches [Cls (\<lambda>x. to_lower x = CHR ''f''), Cls (\<lambda>x. to_lower x = CHR ''i''), Cls (\<lambda>x. to_lower x = CHR ''g''), Cls (\<lambda>x. x = CHR ''.''), Star is_space, Cls is_digit, Star is_digit]
      p s"
    unfolding matches_Cls[of "\<lambda>x. to_lower x = CHR ''f''"] s using c(1) by blast
  with b' show ?L unfolding FIG_PATTERN_items matches_WordB by blast
qed

lemma map_to_lower_fig:
  "map to_lower f = ''fig'' \<longleftrightarrow>
     (\<exists>c0 c1 c2. f = [c0, c1, c2] \<and> to_lower c0 = CHR ''f'' \<and> to_lower c1 = CHR ''i'' \<and> to_lower c2 = CHR ''g'')"
  by (auto simp: map_eq_Cons_conv)

lemma fig_pattern_iff: "re_search FIG_PATTERN s \<noteq> None \<longleftrightarrow> fig_start s"
proof -
  have "occurs FIG_PATTERN s \<longleftrightarrow> fig_start s"
  proof
    assume "occurs FIG_PATTERN s"
    then obtain pre rest0 where s: "s = pre @ rest0"
      and m: "matches (map snd FIG_PATTERN) (last_of None pre) rest0"
      unfolding occurs_matches by blast
    from m[unfolded matches_FIG] obtain c0 c1 c2 ws d rest where
      b: "\<not> word_opt (last_of None pre)" and
      r: "rest0 = c0 # c1 # c2 # CHR ''.'' # ws @ d # rest" and
      c: "to_lower c0 = CHR ''f''" "to_lower c1 = CHR ''i''" "to_lower c2 = CHR ''g''" and
      w: "list_all is_space ws" and d: "is_digit d" by blast
    have 1: "s = pre @ [c0, c1, c2] @ ''.'' @ ws @ d # rest" using s r by simp
    have 2: "map to_lower [c0, c1, c2] = ''fig''" using c by simp
    have 3: "pre = [] \<or> \<not> is_word (last pre)" using b by (simp add: word_opt_last_of)
    from 1 2 3 w d
    have "s = pre @ [c0, c1, c2] @ ''.'' @ ws @ d # rest \<and> map to_lower [c0, c1, c2] = ''fig'' \<and>
        (pre = [] \<or> \<not> is_word (last pre)) \<and> list_all is_space ws \<and> is_digit d"
      by (intro conjI)
    then show "fig_start s" unfolding fig_start_def
      by (intro exI[of _ pre] exI[of _ "[c0, c1, c2]"] exI[of _ ws] exI[of _ d] exI[of _ rest])
  next
    assume "fig_start s"
    then obtain pre f ws d rest where
      s: "s = pre @ f @ ''.'' @ ws @ d # rest" and f: "map to_lower f = ''fig''" and
      b: "pre = [] \<or> \<not> is_word (last pre)" and w: "list_all is_space ws" and d: "is_digit d"
      unfolding fig_start_def by (elim exE conjE)
    from f obtain c0 c1 c2 where f': "f = [c0, c1, c2]"
      and c: "to_lower c0 = CHR ''f''" "to_lower c1 = CHR ''i''" "to_lower c2 = CHR ''g''"
      unfolding map_to_lower_fig by blast
    have nb: "\<not> word_opt (last_of None pre)" using b by (simp add: word_opt_last_of)
    have "matches (map snd FIG_PATTERN) (last_of None pre) (c0 # c1 # c2 # CHR ''.'' # ws @ d # rest)"
      unfolding matches_FIG
      apply (rule conjI[OF nb])
      apply (rule exI[of _ c0], rule exI[of _ c1], rule exI[of _ c2])
      apply (rule exI[of _ ws], rule exI[of _ d], rule exI[of _ rest])
      apply (intro conjI refl c w d)
      done
    moreover have "s = pre @ (c0 # c1 # c2 # CHR ''.'' # ws @ d # rest)" using s f' by simp
    ultimately have "s = pre @ (c0 # c1 # c2 # CHR ''.'' # ws @ d # rest) \<and>
        matches (map snd FIG_PATTERN) (last_of None pre) (c0 # c1 # c2 # CHR ''.'' # ws @ d # rest)"
      by (intro conjI)
    then show "occurs FIG_PATTERN s" unfolding occurs_matches by - ((rule exI)+, assumption)
  qed
  then show ?thesis by (simp only: re_search_occurs)
qed

lemma fig_loop_match:
  assumes "i < length sentences" "\<not> used ! i"
    and "re_search FIG_PATTERN (sentences ! i) = Some (m, parts)"
  shows "fig_loop sentences i used results =
     fig_loop sentences (Suc i) (mark used i (fig_end sentences i))
       (results @ [figure_record sentences i m])"
  using assms by (subst fig_loop.simps) simp

lemma fig_loop_nomatch:
  assumes "i < length sentences" "\<not> used ! i"
    and "re_search FIG_PATTERN (sentences ! i) = None"
  shows "fig_loop sentences i used results = fig_loop sentences (Suc i) used results"
  using assms by (subst fig_loop.simps) simp

lemma fig_loop_done: "\<not> i < length sentences \<Longrightarrow> fig_loop sentences i used results = results"
  by (subst fig_loop.simps) simp

lemma detect_single: "detect_figure_captions [s] \<noteq> [] \<longleftrightarrow> re_search FIG_PATTERN s \<noteq> None"
proof (cases "re_search FIG_PATTERN s")
  case None
  have "fig_loop [s] 0 [False] [] = fig_loop [s] (Suc 0) [False] []"
    by (rule fig_loop_nomatch) (use None in simp_all)
  also have "\<dots> = []" by (rule fig_loop_done) simp
  finally show ?thesis using None by (simp add: detect_figure_captions_def)
next
  case (Some a)
  obtain m parts where a: "a = (m, parts)" by (cases a)
  have "fig_loop [s] 0 [False] [] =
      fig_loop [s] (Suc 0) (mark [False] 0 (fig_end [s] 0)) ([] @ [figure_record [s] 0 m])"
    by (rule fig_loop_match[where parts = parts]) (use Some a in simp_all)
  also have "\<dots> = [] @ [figure_record [s] 0 m]" by (rule fig_loop_done) simp
  finally show ?thesis using Some by (simp add: detect_figure_captions_def)
qed

lemma tab_loop_append:
  "fst (tab_loop chat sentences i used results st) =
     results @ fst (tab_loop chat sentences i used [] st)"
proof (induction "length sentences - i" arbitrary: i used results st rule: less_induct)
  case less
  show ?case
  proof (cases "i < length sentences")
    case False
    then show ?thesis by (simp add: tab_loop_done)
  next
    case lt: True
    have dec: "length sentences - Suc i < length sentences - i" using lt by simp
    show ?thesis
    proof (cases "used ! i \<or> re_search TABLE_KEYWORD_PAT (sentences ! i) = None")
      case True
      have "fst (tab_loop chat sentences i used results st) =
          fst (tab_loop chat sentences (Suc i) used results st)"
        by (simp only: tab_loop_skip[OF lt True])
      also have "\<dots> = results @ fst (tab_loop chat sentences (Suc i) used [] st)"
        by (rule less[OF dec])
      also have "\<dots> = results @ fst (tab_loop chat sentences i used [] st)"
        by (simp only: tab_loop_skip[OF lt True])
      finally show ?thesis .
    next
      case False
      then have nu: "\<not> used ! i" and cand: "re_search TABLE_KEYWORD_PAT (sentences ! i) \<noteq> None"
        by blast+
      obtain q st' where c: "call_qwen_table chat st (sentences ! i) (window1 sentences i) (window2 sentences i) = (q, st')"
        by (cases "call_qwen_table chat st (sentences ! i) (window1 sentences i) (window2 sentences i)")
      show ?thesis
      proof (cases "label q = ''TABLE_CAPTION'' \<and> end_index q \<ge> 0")
        case True
        let ?e = "tab_end sentences i (end_index q)"
        let ?r = "accepted_record sentences i q"
        have "0 \<le> end_index q" using True by (rule conjunct2)
        then have "i \<le> ?e" using tab_end_bounds[OF lt, of "end_index q"] by blast
        then have d: "length sentences - (?e + 1) < length sentences - i" using lt by simp
        have "fst (tab_loop chat sentences i used results st) =
            fst (tab_loop chat sentences (?e + 1) (mark used i ?e) (results @ [?r]) st')"
          by (simp only: tab_loop_accept[OF lt nu cand c True])
        also have "\<dots> = (results @ [?r]) @ fst (tab_loop chat sentences (?e + 1) (mark used i ?e) [] st')"
          by (rule less[OF d])
        also have "\<dots> = results @ ([] @ [?r]) @ fst (tab_loop chat sentences (?e + 1) (mark used i ?e) [] st')"
          by (simp only: append_assoc append_Nil)
        also have "\<dots> = results @ fst (tab_loop chat sentences (?e + 1) (mark used i ?e) ([] @ [?r]) st')"
          by (simp only: less[OF d, of _ "[] @ [?r]", symmetric])
        also have "\<dots> = results @ fst (tab_loop chat sentences i used [] st)"
          by (simp only: tab_loop_accept[OF lt nu cand c True])
        finally show ?thesis .
      next
        case False
        let ?r = "rejected_record sentences i q"
        have "fst (tab_loop chat sentences i used results st) =
            fst (tab_loop chat sentences (Suc i) used (results @ [?r]) st')"
          by (simp only: tab_loop_reject[OF lt nu cand c False])
        also have "\<dots> = (results @ [?r]) @ fst (tab_loop chat sentences (Suc i) used [] st')"
          by (rule less[OF dec])
        also have "\<dots> = results @ ([] @ [?r]) @ fst (tab_loop chat sentences (Suc i) used [] st')"
          by (simp only: append_assoc append_Nil)
        also have "\<dots> = results @ fst (tab_loop chat sentences (Suc i) used ([] @ [?r]) st')"
          by (simp only: less[OF dec, of _ "[] @ [?r]", symmetric])
        also have "\<dots> = results @ fst (tab_loop chat sentences i used [] st)"
          by (simp only: tab_loop_reject[OF lt nu cand c False])
        finally show ?thesis .
      qed
    qed
  qed
qed

lemma tab_loop_accept_out:
  assumes "i < length sentences" "\<not> used ! i" "re_search TABLE_KEYWORD_PAT (sentences ! i) \<noteq> None"
    and "call_qwen_table chat st (sentences ! i) (window1 sentences i) (window2 sentences i) = (q, st')"
    and "label q = ''TABLE_CAPTION'' \<and> end_index q \<ge> 0"
  shows "fst (tab_loop chat sentences i used results st) =
     results @ accepted_record sentences i q #
       fst (tab_loop chat sentences (tab_end sentences i (end_index q) + 1)
              (mark used i (tab_end sentences i (end_index q))) [] st')"
proof -
  have "fst (tab_loop chat sentences i used results st) =
      fst (tab_loop chat sentences (tab_end sentences i (end_index q) + 1)
             (mark used i (tab_end sentences i (end_index q)))
             (results @ [accepted_record sentences i q]) st')"
    by (simp only: tab_loop_accept[OF assms])
  also have "\<dots> = (results @ [accepted_record sentences i q]) @
      fst (tab_loop chat sentences (tab_end sentences i (end_index q) + 1)
             (mark used i (tab_end sentences i (end_index q))) [] st')"
    by (rule tab_loop_append)
  finally show ?thesis by (simp only: append_assoc append_Cons append_Nil)
qed

lemma tab_loop_reject_out:
  assumes "i < length sentences" "\<not> used ! i" "re_search TABLE_KEYWORD_PAT (sentences ! i) \<noteq> None"
    and "call_qwen_table chat st (sentences ! i) (window1 sentences i) (window2 sentences i) = (q, st')"
    and "\<not> (label q = ''TABLE_CAPTION'' \<and> end_index q \<ge> 0)"
  shows "fst (tab_loop chat sentences i used results st) =
     results @ rejected_record sentences i q # fst (tab_loop chat sentences (Suc i) used [] st')"
proof -
  have "fst (tab_loop chat sentences i used results st) =
      fst (tab_loop chat sentences (Suc i) used (results @ [rejected_record sentences i q]) st')"
    by (simp only: tab_loop_reject[OF assms])
  also have "\<dots> = (results @ [rejected_record sentences i q]) @
      fst (tab_loop chat sentences (Suc i) used [] st')"
    by (rule tab_loop_append)
  finally show ?thesis by (simp only: append_assoc append_Cons append_Nil)
qed

lemma item_ok_chars: "item_ok it p s x \<Longrightarrow> list_all (item_chars it) x"
  by (cases it) (auto simp: list_all_iff)

lemma parts_ok_chars:
  "parts_ok r p s parts \<Longrightarrow> list_all2 (\<lambda>it x. list_all (item_chars it) x) r parts"
proof (induction r arbitrary: p s parts)
  case Nil
  then show ?case by simp
next
  case (Cons it r)
  then obtain x xs where parts: "parts = x # xs" by (cases parts) auto
  with Cons.prems have "item_ok it p (drop (length x) s) x"
    and "parts_ok r (last_of p x) (drop (length x) s) xs" by auto
  with Cons.IH parts show ?case by (auto dest: item_ok_chars)
qed

lemma group_chars:
  assumes "list_all2 (\<lambda>it x. list_all (item_chars it) x) (map snd re) parts"
    and "\<forall>(g, it) \<in> set re. g = n \<longrightarrow> (\<forall>c. item_chars it c \<longrightarrow> Q c)"
  shows "list_all Q (group re parts n)"
  using assms
proof (induction re arbitrary: parts)
  case Nil
  then show ?case by (simp add: group_def)
next
  case (Cons a re)
  obtain g it where a: "a = (g, it)" by (cases a)
  from Cons.prems(1) a obtain x xs where parts: "parts = x # xs"
    and x: "list_all (item_chars it) x"
    and xs: "list_all2 (\<lambda>it x. list_all (item_chars it) x) (map snd re) xs"
    by (auto simp: list_all2_Cons1)
  from Cons.prems(2) have "\<forall>(g, it) \<in> set re. g = n \<longrightarrow> (\<forall>c. item_chars it c \<longrightarrow> Q c)"
    by auto
  from Cons.IH[OF xs this] have ih: "list_all Q (group re xs n)" .
  show ?case
  proof (cases "g = n")
    case True
    with Cons.prems(2) a have "\<forall>c. item_chars it c \<longrightarrow> Q c" by auto
    with x have "list_all Q x" by (auto simp: list_all_iff)
    with ih True a parts show ?thesis by (simp add: group_def)
  next
    case False
    with ih a parts show ?thesis by (simp add: group_def)
  qed
qed

lemma PARSE_RE_group1:
  "\<forall>(g, it) \<in> set PARSE_RE. g = 1 \<longrightarrow> (\<forall>c. item_chars it c \<longrightarrow> label_char c)"
  by (simp add: PARSE_RE_def lit_def chr_def)

lemma label_char_upper: "label_char c \<Longrightarrow> to_upper c = c"
  by (auto simp: label_char_def to_upper_def is_upper_def is_lower_def)

lemma upper_label: "list_all label_char g \<Longrightarrow> upper g = g"
  by (induction g) (auto simp: upper_def label_char_upper)

lemma parse_match:
  assumes "re_search PARSE_RE (one_line (from_label resp)) = Some (k, parts)"
  shows "parse_table_response resp =
     \<lparr>label = (if group PARSE_RE parts 1 \<in> {''TABLE_CAPTION'', ''NOT_CAPTION''}
               then group PARSE_RE parts 1 else ''PARSE_ERROR''),
      end_index = (case py_int (group PARSE_RE parts 2) of
                     None \<Rightarrow> - 1
                   | Some v \<Rightarrow> if v \<in> {- 1, 0, 1, 2} then v else - 1),
      reason = strip (group PARSE_RE parts 3)\<rparr>"
proof -
  from re_search_Some[OF assms]
  have "parts_ok (map snd PARSE_RE) (last_of None (take k (one_line (from_label resp))))
      (drop k (one_line (from_label resp))) parts" by (rule conjunct2)
  from group_chars[OF parts_ok_chars[OF this] PARSE_RE_group1]
  have u: "upper (group PARSE_RE parts 1) = group PARSE_RE parts 1" by (rule upper_label)
  define g1 where "g1 = group PARSE_RE parts 1"
  define e where "e = py_int (group PARSE_RE parts 2)"
  have "parse_table_response resp =
     \<lparr>label = (if upper g1 \<notin> {''TABLE_CAPTION'', ''NOT_CAPTION''} then ''PARSE_ERROR'' else upper g1),
      end_index = (if (case e of Some v \<Rightarrow> v | None \<Rightarrow> - 1) \<notin> {- 1, 0, 1, 2} then - 1
                   else (case e of Some v \<Rightarrow> v | None \<Rightarrow> - 1)),
      reason = strip (group PARSE_RE parts 3)\<rparr>"
    unfolding parse_table_response_def Let_def assms g1_def e_def
    by (simp only: option.case prod.case)
  moreover have "(if upper g1 \<notin> {''TABLE_CAPTION'', ''NOT_CAPTION''} then ''PARSE_ERROR'' else upper g1) =
      (if g1 \<in> {''TABLE_CAPTION'', ''NOT_CAPTION''} then g1 else ''PARSE_ERROR'')"
    unfolding u[folded g1_def] by (simp only: if_not_P if_P split: if_split) blast
  moreover have "(if (case e of Some v \<Rightarrow> v | None \<Rightarrow> - 1) \<notin> {- 1, 0, 1, 2} then - 1
                   else (case e of Some v \<Rightarrow> v | None \<Rightarrow> - 1)) =
      (case e of None \<Rightarrow> - 1 | Some v \<Rightarrow> if v \<in> {- 1, 0, 1, 2 :: int} then v else - 1)"
    by (cases e) auto
  ultimately show ?thesis unfolding g1_def e_def by (simp only:)
qed

lemma py_find_from_cases:
  "py_find_from pat k s = - 1 \<and> (\<forall>pre post. s \<noteq> pre @ pat @ post) \<or>
   (\<exists>pre post. s = pre @ pat @ post \<and> py_find_from pat k s = int (k + length pre) \<and>
      (\<forall>pre' post'. s = pre' @ pat @ post' \<longrightarrow> length pre \<le> length pre'))"
proof (induction s arbitrary: k)
  case Nil
  show ?case
  proof (cases "pat = []")
    case True
    then have "[] = [] @ pat @ [] \<and> py_find_from pat k [] = int (k + length ([]::string)) \<and>
        (\<forall>pre' post'. [] = pre' @ pat @ post' \<longrightarrow> length ([]::string) \<le> length pre')" by simp
    then show ?thesis by blast
  next
    case False
    then show ?thesis by simp
  qed
next
  case (Cons c cs)
  show ?case
  proof (cases "prefix pat (c # cs)")
    case True
    then obtain post where p: "c # cs = pat @ post" by (auto simp: prefix_def)
    have v: "py_find_from pat k (c # cs) = int (k + length ([]::string))" using True by simp
    have "c # cs = [] @ pat @ post" using p by simp
    moreover have "\<forall>pre' post'. c # cs = pre' @ pat @ post' \<longrightarrow> length ([]::string) \<le> length pre'"
      by simp
    ultimately show ?thesis using v by blast
  next
    case np: False
    have v: "py_find_from pat k (c # cs) = py_find_from pat (Suc k) cs" using np by simp
    have tail: "\<exists>pre'' . pre' = c # pre'' \<and> cs = pre'' @ pat @ post'"
      if "c # cs = pre' @ pat @ post'" for pre' post'
    proof (cases pre')
      case Nil
      with that have "prefix pat (c # cs)" by (simp add: prefix_def)
      with np show ?thesis by simp
    next
      case (Cons d pre'')
      with that show ?thesis by simp
    qed
    from Cons.IH[of "Suc k"] show ?thesis
    proof (elim disjE conjE exE)
      assume a: "py_find_from pat (Suc k) cs = - 1" and b: "\<forall>pre post. cs \<noteq> pre @ pat @ post"
      have "\<forall>pre post. c # cs \<noteq> pre @ pat @ post"
      proof (intro allI notI)
        fix pre post assume "c # cs = pre @ pat @ post"
        from tail[OF this] b show False by blast
      qed
      with a v show ?thesis by simp
    next
      fix pre post
      assume s: "cs = pre @ pat @ post" and f: "py_find_from pat (Suc k) cs = int (Suc k + length pre)"
        and m: "\<forall>pre' post'. cs = pre' @ pat @ post' \<longrightarrow> length pre \<le> length pre'"
      have 1: "c # cs = (c # pre) @ pat @ post" using s by simp
      have 2: "py_find_from pat k (c # cs) = int (k + length (c # pre))" using v f by simp
      have 3: "\<forall>pre' post'. c # cs = pre' @ pat @ post' \<longrightarrow> length (c # pre) \<le> length pre'"
      proof (intro allI impI)
        fix pre' post' assume "c # cs = pre' @ pat @ post'"
        from tail[OF this] obtain pre'' where p: "pre' = c # pre''" "cs = pre'' @ pat @ post'" by blast
        with m have "length pre \<le> length pre''" by blast
        with p show "length (c # pre) \<le> length pre'" by simp
      qed
      from 1 2 3 show ?thesis by blast
    qed
  qed
qed

lemma from_label_absent:
  assumes "\<forall>pre post. resp \<noteq> pre @ ''LABEL='' @ post"
  shows "from_label resp = resp"
proof -
  from py_find_from_cases[of "''LABEL=''" 0 resp] assms
  have "py_find_from ''LABEL='' 0 resp = - 1" by blast
  then show ?thesis by (simp add: from_label_def py_find_def)
qed

lemma from_label_first:
  assumes "resp = pre @ ''LABEL='' @ post"
    and "\<forall>pre' post'. resp = pre' @ ''LABEL='' @ post' \<longrightarrow> length pre \<le> length pre'"
  shows "from_label resp = ''LABEL='' @ post"
proof -
  from py_find_from_cases[of "''LABEL=''" 0 resp] assms(1)
  obtain pre0 post0 where r: "resp = pre0 @ ''LABEL='' @ post0"
    and f: "py_find_from ''LABEL='' 0 resp = int (0 + length pre0)"
    and m: "\<forall>pre' post'. resp = pre' @ ''LABEL='' @ post' \<longrightarrow> length pre0 \<le> length pre'"
    by blast
  from m assms(1) have "length pre0 \<le> length pre" by blast
  moreover from assms(2) r have "length pre \<le> length pre0" by blast
  ultimately have l: "length pre0 = length pre" by simp
  have "drop (length pre) resp = ''LABEL='' @ post" by (subst assms(1)) simp
  with f l show ?thesis by (simp add: from_label_def py_find_def)
qed

lemma split_ws_words:
  "\<forall>c \<in> set cur. \<not> is_space c \<Longrightarrow>
   \<forall>w \<in> set (split_ws cur s). w \<noteq> [] \<and> (\<forall>c \<in> set w. \<not> is_space c)"
proof (induction s arbitrary: cur)
  case Nil
  then show ?case by simp
next
  case (Cons a s)
  show ?case
  proof (cases "is_space a")
    case True
    have "\<forall>w \<in> set (split_ws [] s). w \<noteq> [] \<and> (\<forall>c \<in> set w. \<not> is_space c)"
      by (rule Cons.IH) simp
    with True Cons.prems show ?thesis by simp
  next
    case False
    with Cons.prems have "\<forall>c \<in> set (cur @ [a]). \<not> is_space c" by simp
    from Cons.IH[OF this] False show ?thesis by simp
  qed
qed

lemma split_ws_concat: "concat (split_ws cur s) = cur @ filter (\<lambda>c. \<not> is_space c) s"
  by (induction s arbitrary: cur) auto

lemma split_ws_space:
  "is_space c \<Longrightarrow> split_ws w (a @ c # b) = split_ws w a @ split_ws [] b"
  by (induction a arbitrary: w) auto

lemma is_linebreak_space: "is_linebreak c \<Longrightarrow> is_space c"
  by (auto simp: is_linebreak_def is_space_def)

lemma is_space_CR: "is_space (CHR 0x0D)"
  by code_simp

lemma is_space_LF: "is_space (CHR 0x0A)"
  by code_simp

lemma is_space_blank: "is_space CHR '' ''"
  by code_simp

lemma splitlines_from_Nil: "splitlines_from cur s = [] \<longleftrightarrow> cur = [] \<and> s = []"
  by (induction cur s rule: splitlines_from.induct) (auto split: if_splits)

lemma join_Cons: "join sep (x # ys) = (if ys = [] then x else x @ sep @ join sep ys)"
  by (cases ys) auto

lemma split_ws_line_end:
  assumes "is_space c" and ih: "split_ws [] (join '' '' (splitlines_from [] b)) = split_ws [] b"
  shows "split_ws w (join '' '' (cur # splitlines_from [] b)) = split_ws w cur @ split_ws [] b"
proof (cases "b = []")
  case True
  then show ?thesis by simp
next
  case False
  then have "splitlines_from [] b \<noteq> []" by (simp add: splitlines_from_Nil)
  then have "join '' '' (cur # splitlines_from [] b) = cur @ CHR '' '' # join '' '' (splitlines_from [] b)"
    by (simp add: join_Cons)
  then show ?thesis using ih by (simp add: split_ws_space[OF is_space_blank])
qed

lemma split_ws_splitlines:
  "split_ws w (join '' '' (splitlines_from cur s)) = split_ws w (cur @ s)"
proof (induction cur s arbitrary: w rule: splitlines_from.induct)
  case (1 cur)
  then show ?case by simp
next
  case (2 cur c cs)
  show ?case
  proof (cases "c = CHR 0x0D \<and> cs \<noteq> [] \<and> hd cs = CHR 0x0A")
    case True
    then obtain cs' where cs: "cs = CHR 0x0A # cs'" by (cases cs) auto
    from "2.IH"(1)[OF True, of "[]"] cs
    have ih: "split_ws [] (join '' '' (splitlines_from [] cs')) = split_ws [] cs'" by simp
    have "split_ws w (join '' '' (splitlines_from cur (c # cs))) =
        split_ws w (join '' '' (cur # splitlines_from [] cs'))" using True cs by simp
    also have "\<dots> = split_ws w cur @ split_ws [] cs'"
      by (rule split_ws_line_end[OF is_space_CR ih])
    also have "\<dots> = split_ws w cur @ split_ws [] (CHR 0x0A # cs')"
      using is_space_LF by simp
    also have "\<dots> = split_ws w (cur @ CHR 0x0D # CHR 0x0A # cs')"
      by (rule split_ws_space[OF is_space_CR, symmetric])
    finally show ?thesis using True cs by simp
  next
    case ncr: False
    show ?thesis
    proof (cases "is_linebreak c")
      case True
      from "2.IH"(2)[OF ncr True, of "[]"]
      have ih: "split_ws [] (join '' '' (splitlines_from [] cs)) = split_ws [] cs" by simp
      have sp: "is_space c" using True by (rule is_linebreak_space)
      have "split_ws w (join '' '' (splitlines_from cur (c # cs))) =
          split_ws w (join '' '' (cur # splitlines_from [] cs))" using ncr True by auto
      also have "\<dots> = split_ws w cur @ split_ws [] cs"
        by (rule split_ws_line_end[OF sp ih])
      also have "\<dots> = split_ws w (cur @ c # cs)"
        by (rule split_ws_space[OF sp, symmetric])
      finally show ?thesis .
    next
      case False
      from "2.IH"(3)[OF ncr False, of w] ncr False show ?thesis by auto
    qed
  qed
qed

lemma one_line_split: "one_line t = join '' '' (py_split t)"
  unfolding one_line_def py_split_def splitlines_def split_ws_splitlines by simp

lemma py_split_words: "\<forall>w \<in> set (py_split t). w \<noteq> [] \<and> (\<forall>c \<in> set w. \<not> is_space c)"
  unfolding py_split_def by (rule split_ws_words) simp

lemma py_split_concat: "concat (py_split t) = filter (\<lambda>c. \<not> is_space c) t"
  unfolding py_split_def by (simp add: split_ws_concat)

lemma parse_no_match:
  assumes "\<not> occurs PARSE_RE (one_line (from_label resp))"
  shows "parse_table_response resp =
     \<lparr>label = ''PARSE_ERROR'', end_index = - 1,
      reason = ''raw: '' @ take 200 (one_line (from_label resp))\<rparr>"
proof -
  from assms have "re_search PARSE_RE (one_line (from_label resp)) = None"
    using re_search_occurs[of PARSE_RE "one_line (from_label resp)"] by blast
  then show ?thesis by (simp add: parse_table_response_def)
qed

lemma join_set: "set (join sep ws) \<subseteq> set sep \<union> set (concat ws)"
  by (induction sep ws rule: join.induct) auto

lemma one_line_spaces: "\<forall>c \<in> set (one_line t). is_space c \<longrightarrow> c = CHR '' ''"
proof (intro ballI impI)
  fix c assume c: "c \<in> set (one_line t)" and s: "is_space c"
  from c join_set[of "'' ''" "py_split t"]
  have "c \<in> set '' '' \<or> c \<in> set (concat (py_split t))"
    unfolding one_line_split by blast
  moreover have "c \<notin> set (concat (py_split t))"
    unfolding py_split_concat using s by simp
  ultimately show "c = CHR '' ''" by simp
qed

lemma PARSE_RE_group2:
  "\<forall>(g, it) \<in> set PARSE_RE. g = 2 \<longrightarrow> (\<forall>c. item_chars it c \<longrightarrow> is_digit c \<or> c = CHR ''-'')"
  by (simp add: PARSE_RE_def lit_def chr_def)

lemma PARSE_RE_group3:
  "\<forall>(g, it) \<in> set PARSE_RE. g = 3 \<longrightarrow> (\<forall>c. item_chars it c \<longrightarrow> not_newline c)"
  by (simp add: PARSE_RE_def lit_def chr_def)

lemma concat_join: "set (concat ws) \<subseteq> set (join sep ws)"
  by (induction sep ws rule: join.induct) auto

section \<open>Span validity\<close>

text \<open>
  Claim C8. Every record emitted by either detector, rejected table candidates included,
  satisfies \<open>0 \<le> start_sent_idx \<le> end_sent_idx \<le> len(sentences) - 1\<close>.
\<close>

theorem span_validity:
  "\<forall>r \<in> set (detect_figure_captions sentences) \<union> set (fst (detect_table_captions chat st sentences)).
      0 \<le> start_sent_idx r \<and> start_sent_idx r \<le> end_sent_idx r \<and>
      end_sent_idx r \<le> int (length sentences) - 1"
proof
  fix r
  assume a: "r \<in> set (detect_figure_captions sentences) \<union> set (fst (detect_table_captions chat st sentences))"
  show "0 \<le> start_sent_idx r \<and> start_sent_idx r \<le> end_sent_idx r \<and>
      end_sent_idx r \<le> int (length sentences) - 1"
  proof (cases "r \<in> set (detect_figure_captions sentences)")
    case True
    from detect_figure_records[OF True] obtain j m
      where "j < length sentences" and r: "r = figure_record sentences j m" by blast
    then show ?thesis unfolding r by (intro figure_record_span)
  next
    case False
    with a have "r \<in> set (fst (detect_table_captions chat st sentences))" by blast
    from detect_table_records[OF this] obtain j q
      where j: "j < length sentences"
        and r: "r = rejected_record sentences j q \<or> r = accepted_record sentences j q \<and> 0 \<le> end_index q"
      by blast
    from r show ?thesis
    proof (elim disjE conjE)
      assume r: "r = rejected_record sentences j q"
      show ?thesis unfolding r using j by (rule rejected_record_span)
    next
      assume r: "r = accepted_record sentences j q" and e: "0 \<le> end_index q"
      show ?thesis unfolding r using j e by (rule accepted_record_span)
    qed
  qed
qed

theorem span_validity_witness:
  "rejected_record [''See Table 1.''] 0 \<lparr>label = ''ERROR'', end_index = - 1, reason = ''Qwen call error: down''\<rparr>
     \<in> set (detect_figure_captions [''See Table 1.'']) \<union>
       set (fst (detect_table_captions (\<lambda>st s0 s1 s2. (Inl ''down'', st)) () [''See Table 1.''])) \<and>
   end_sent_idx (rejected_record [''See Table 1.''] 0
     \<lparr>label = ''ERROR'', end_index = - 1, reason = ''Qwen call error: down''\<rparr>) \<le> int (length [''See Table 1.'']) - 1"
proof -
  have e: "fst (detect_table_captions (\<lambda>st s0 s1 s2. (Inl ''down'', st)) () [''See Table 1.'']) =
      [rejected_record [''See Table 1.''] 0 \<lparr>label = ''ERROR'', end_index = - 1, reason = ''Qwen call error: down''\<rparr>]"
    by code_simp
  have m: "rejected_record [''See Table 1.''] 0 \<lparr>label = ''ERROR'', end_index = - 1, reason = ''Qwen call error: down''\<rparr>
     \<in> set (detect_figure_captions [''See Table 1.'']) \<union>
       set (fst (detect_table_captions (\<lambda>st s0 s1 s2. (Inl ''down'', st)) () [''See Table 1.'']))"
    unfolding e by (simp only: list.set Un_iff insertI1 simp_thms)
  from span_validity[rule_format, OF m] m show ?thesis by blast
qed

section \<open>Consumption state and overlap\<close>

text \<open>
  Claim C1 says that the table pass skips the sentences claimed by the figure pass, so
  that no two records of one document overlap. In the source each detector starts from
  its own all-false \<open>used\<close> list. With a model that accepts every candidate as a
  one-sentence caption, the document \<open>Fig. 1 shows data. Table 2 lists yields. More.\<close>
  gives a FIGURE record over sentences 0..2 and a TABLE record over sentence 1.
\<close>

theorem shared_state_counterexample:
  "map (\<lambda>r. (cap_type r, start_sent_idx r, end_sent_idx r))
     (fst (process_single_xml
        (\<lambda>st s0 s1 s2. (Inr ''LABEL=TABLE_CAPTION; END_INDEX=0; REASON=caption'', st)) ()
        ''a.xml''
        (Some \<lparr>rawtext_nodes = [''Fig. 1 shows data. Table 2 lists yields. More.''],
               body_nodes = [], all_nodes = [''Fig. 1 shows data. Table 2 lists yields. More.'']\<rparr>))) =
     [(''FIGURE'', 0, 2), (''TABLE'', 1, 1)]"
  by code_simp

text \<open>
  Claim C1, as the code has it: each detector keeps its own consumption state. Within the
  output of the figure detector, and within the output of the table detector (rejected
  candidates included), every record ends before the next one starts, so no two records
  of the same detector overlap.
\<close>

theorem no_overlap_within_detector:
  "spans_ordered (detect_figure_captions sentences) \<and>
   spans_ordered (fst (detect_table_captions chat st sentences))"
  using detect_figure_ordered detect_table_ordered by (rule conjI)

theorem no_overlap_within_detector_witness:
  "end_sent_idx (detect_figure_captions [''Fig. 1 a.'', ''b.'', ''c.'', ''Fig. 2 d.''] ! 0) <
   start_sent_idx (detect_figure_captions [''Fig. 1 a.'', ''b.'', ''c.'', ''Fig. 2 d.''] ! 1)"
proof -
  have e: "detect_figure_captions [''Fig. 1 a.'', ''b.'', ''c.'', ''Fig. 2 d.''] =
      [figure_record [''Fig. 1 a.'', ''b.'', ''c.'', ''Fig. 2 d.''] 0 0,
       figure_record [''Fig. 1 a.'', ''b.'', ''c.'', ''Fig. 2 d.''] 3 0]"
    by code_simp
  from no_overlap_within_detector[of "[''Fig. 1 a.'', ''b.'', ''c.'', ''Fig. 2 d.'']"]
  have "spans_ordered (detect_figure_captions [''Fig. 1 a.'', ''b.'', ''c.'', ''Fig. 2 d.''])"
    by (rule conjunct1)
  then show ?thesis unfolding e
    by (simp only: spans_ordered.simps list.set ball_simps insert_iff nth_Cons_0 nth_Cons_Suc One_nat_def simp_thms)
qed

section \<open>One table candidate\<close>

text \<open>
  Claim C2. At an unclaimed candidate index \<open>i\<close>, with \<open>q\<close> the result of
  \<open>call_qwen_table\<close> for the window at \<open>i\<close>: if \<open>q\<close> has label TABLE_CAPTION and an
  end index in \<open>{0, 1, 2}\<close>, the detector emits exactly one record for the candidate,
  spanning \<open>i .. min(i + end_index, n - 1)\<close> and tagged with the source's provenance
  string for a table found by the model, \<open>LLM_TABLE\<close> (the tag the specification calls
  ORACLE_TABLE); it marks every index of the span and resumes at the index after the
  span. For every other result it emits exactly one record with start and end \<open>i\<close>,
  leaves \<open>used\<close> as it was and resumes at \<open>i + 1\<close>. A chat call that raises gives
  label ERROR with end index \<open>-1\<close> and is such a rejection; the loop goes on. In each
  case the output of the loop is the records found so far, then this record, then the
  output of the loop from the index where it resumes.
\<close>

theorem table_candidate_step:
  assumes "i < length sentences" and "length used = length sentences" and "\<not> used ! i"
    and "re_search TABLE_KEYWORD_PAT (sentences ! i) \<noteq> None"
    and "call_qwen_table chat st (sentences ! i) (window1 sentences i) (window2 sentences i) = (q, st')"
  shows
   "(label q = ''TABLE_CAPTION'' \<and> end_index q \<in> {0, 1, 2} \<longrightarrow>
       tab_loop chat sentences i used results st =
         tab_loop chat sentences (tab_end sentences i (end_index q) + 1)
           (mark used i (tab_end sentences i (end_index q)))
           (results @ [accepted_record sentences i q]) st' \<and>
       source (accepted_record sentences i q) = ''LLM_TABLE'' \<and>
       start_sent_idx (accepted_record sentences i q) = int i \<and>
       end_sent_idx (accepted_record sentences i q) =
         min (int i + end_index q) (int (length sentences) - 1) \<and>
       (\<forall>k. i \<le> k \<and> k \<le> tab_end sentences i (end_index q) \<longrightarrow>
          mark used i (tab_end sentences i (end_index q)) ! k) \<and>
       fst (tab_loop chat sentences i used results st) =
         results @ accepted_record sentences i q #
           fst (tab_loop chat sentences (tab_end sentences i (end_index q) + 1)
                  (mark used i (tab_end sentences i (end_index q))) [] st') \<and>
       accepted_record sentences i q \<in> set (fst (tab_loop chat sentences i used results st))) \<and>
    (\<not> (label q = ''TABLE_CAPTION'' \<and> end_index q \<in> {0, 1, 2}) \<longrightarrow>
       tab_loop chat sentences i used results st =
         tab_loop chat sentences (Suc i) used (results @ [rejected_record sentences i q]) st' \<and>
       start_sent_idx (rejected_record sentences i q) = int i \<and>
       end_sent_idx (rejected_record sentences i q) = int i \<and>
       fst (tab_loop chat sentences i used results st) =
         results @ rejected_record sentences i q #
           fst (tab_loop chat sentences (Suc i) used [] st') \<and>
       rejected_record sentences i q \<in> set (fst (tab_loop chat sentences i used results st))) \<and>
    (\<forall>msg. fst (chat st (sentences ! i) (window1 sentences i) (window2 sentences i)) = Inl msg \<longrightarrow>
       label q = ''ERROR'' \<and> end_index q = - 1 \<and>
       tab_loop chat sentences i used results st =
         tab_loop chat sentences (Suc i) used (results @ [rejected_record sentences i q]) st' \<and>
       fst (tab_loop chat sentences i used results st) =
         results @ rejected_record sentences i q #
           fst (tab_loop chat sentences (Suc i) used [] st')) \<and>
    detect_table_captions chat st sentences =
      tab_loop chat sentences 0 (replicate (length sentences) False) [] st"
proof -
  have rng: "end_index q \<in> {- 1, 0, 1, 2}"
    using call_answers[OF assms(5)] by (rule answers_range)
  have iff: "end_index q \<in> {0, 1, 2} \<longleftrightarrow> 0 \<le> end_index q"
    using rng by auto
  have A: "tab_loop chat sentences i used results st =
         tab_loop chat sentences (tab_end sentences i (end_index q) + 1)
           (mark used i (tab_end sentences i (end_index q)))
           (results @ [accepted_record sentences i q]) st' \<and>
       source (accepted_record sentences i q) = ''LLM_TABLE'' \<and>
       start_sent_idx (accepted_record sentences i q) = int i \<and>
       end_sent_idx (accepted_record sentences i q) =
         min (int i + end_index q) (int (length sentences) - 1) \<and>
       (\<forall>k. i \<le> k \<and> k \<le> tab_end sentences i (end_index q) \<longrightarrow>
          mark used i (tab_end sentences i (end_index q)) ! k) \<and>
       fst (tab_loop chat sentences i used results st) =
         results @ accepted_record sentences i q #
           fst (tab_loop chat sentences (tab_end sentences i (end_index q) + 1)
                  (mark used i (tab_end sentences i (end_index q))) [] st') \<and>
       accepted_record sentences i q \<in> set (fst (tab_loop chat sentences i used results st))"
    if acc: "label q = ''TABLE_CAPTION'' \<and> end_index q \<in> {0, 1, 2}"
  proof -
    have l: "label q = ''TABLE_CAPTION''" using acc by (rule conjunct1)
    have e: "0 \<le> end_index q" using acc iff by blast
    have le: "label q = ''TABLE_CAPTION'' \<and> 0 \<le> end_index q" using l e by (rule conjI)
    note b = tab_end_bounds[OF assms(1) e]
    have m: "\<forall>k. i \<le> k \<and> k \<le> tab_end sentences i (end_index q) \<longrightarrow>
          mark used i (tab_end sentences i (end_index q)) ! k"
    proof (intro allI impI)
      fix k assume k: "i \<le> k \<and> k \<le> tab_end sentences i (end_index q)"
      with b assms(2) have "k < length used" by simp
      from mark_nth[OF this] k show "mark used i (tab_end sentences i (end_index q)) ! k" by blast
    qed
    have s1: "source (accepted_record sentences i q) = ''LLM_TABLE''" by (rule accepted_record_sel)
    have s2: "start_sent_idx (accepted_record sentences i q) = int i" by (rule accepted_record_sel)
    have s3: "end_sent_idx (accepted_record sentences i q) =
         min (int i + end_index q) (int (length sentences) - 1)"
      using b by (simp only: accepted_record_sel)
    note out = tab_loop_accept_out[OF assms(1,3,4,5) le, of results]
    have mem: "accepted_record sentences i q \<in> set (fst (tab_loop chat sentences i used results st))"
      unfolding out by (simp only: set_append list.set Un_iff insertI1 simp_thms)
    from tab_loop_accept[OF assms(1,3,4,5) le] s1 s2 s3 m out mem show ?thesis by (intro conjI)
  qed
  have R: "tab_loop chat sentences i used results st =
         tab_loop chat sentences (Suc i) used (results @ [rejected_record sentences i q]) st' \<and>
       start_sent_idx (rejected_record sentences i q) = int i \<and>
       end_sent_idx (rejected_record sentences i q) = int i \<and>
       fst (tab_loop chat sentences i used results st) =
         results @ rejected_record sentences i q #
           fst (tab_loop chat sentences (Suc i) used [] st') \<and>
       rejected_record sentences i q \<in> set (fst (tab_loop chat sentences i used results st))"
    if rej: "\<not> (label q = ''TABLE_CAPTION'' \<and> end_index q \<in> {0, 1, 2})"
  proof -
    have n: "\<not> (label q = ''TABLE_CAPTION'' \<and> 0 \<le> end_index q)" using rej iff by blast
    have s2: "start_sent_idx (rejected_record sentences i q) = int i" by (rule rejected_record_sel)
    have s3: "end_sent_idx (rejected_record sentences i q) = int i" by (rule rejected_record_sel)
    note out = tab_loop_reject_out[OF assms(1,3,4,5) n, of results]
    have mem: "rejected_record sentences i q \<in> set (fst (tab_loop chat sentences i used results st))"
      unfolding out by (simp only: set_append list.set Un_iff insertI1 simp_thms)
    from tab_loop_reject[OF assms(1,3,4,5) n] s2 s3 out mem show ?thesis by (intro conjI)
  qed
  have E: "label q = ''ERROR'' \<and> end_index q = - 1 \<and>
       tab_loop chat sentences i used results st =
         tab_loop chat sentences (Suc i) used (results @ [rejected_record sentences i q]) st' \<and>
       fst (tab_loop chat sentences i used results st) =
         results @ rejected_record sentences i q #
           fst (tab_loop chat sentences (Suc i) used [] st')"
    if "fst (chat st (sentences ! i) (window1 sentences i) (window2 sentences i)) = Inl msg" for msg
  proof -
    have q: "q = \<lparr>label = ''ERROR'', end_index = - 1, reason = ''Qwen call error: '' @ msg\<rparr>"
      using assms(5) that by (rule call_raises)
    have l: "label q = ''ERROR''" unfolding q by (simp only: qres.select_convs)
    have e: "end_index q = - 1" unfolding q by (simp only: qres.select_convs)
    have "label q \<noteq> ''TABLE_CAPTION''" unfolding l by (rule error_not_caption)
    then have "\<not> (label q = ''TABLE_CAPTION'' \<and> end_index q \<in> {0, 1, 2})" by blast
    from R[OF this] l e show ?thesis by blast
  qed
  have D: "detect_table_captions chat st sentences =
      tab_loop chat sentences 0 (replicate (length sentences) False) [] st"
    by (rule detect_table_captions_def)
  from A R E D show ?thesis by blast
qed

theorem table_candidate_step_witness:
  "accepted_record [''Table 1 lists the yields.''] 0
      \<lparr>label = ''TABLE_CAPTION'', end_index = 0, reason = ''short caption''\<rparr>
     \<in> set (fst (detect_table_captions
          (\<lambda>st s0 s1 s2. (Inr ''LABEL=TABLE_CAPTION; END_INDEX=0; REASON=short caption'', st)) ()
          [''Table 1 lists the yields.''])) \<and>
   end_sent_idx (accepted_record [''Table 1 lists the yields.''] 0
      \<lparr>label = ''TABLE_CAPTION'', end_index = 0, reason = ''short caption''\<rparr>) = 0"
proof -
  let ?chat = "\<lambda>(st::unit) (s0::string) (s1::string) (s2::string).
      (Inr ''LABEL=TABLE_CAPTION; END_INDEX=0; REASON=short caption'' :: string + string, st)"
  let ?S = "[''Table 1 lists the yields.'']"
  let ?q = "\<lparr>label = ''TABLE_CAPTION'', end_index = 0, reason = ''short caption''\<rparr>"
  let ?u = "replicate (length ?S) False"
  have h1: "0 < length ?S" by simp
  have h2: "length ?u = length ?S" by simp
  have h3: "\<not> ?u ! 0" by simp
  have h4: "re_search TABLE_KEYWORD_PAT (?S ! 0) \<noteq> None" by code_simp
  have h5: "call_qwen_table ?chat () (?S ! 0) (window1 ?S 0) (window2 ?S 0) = (?q, ())" by code_simp
  have a: "label ?q = ''TABLE_CAPTION'' \<and> end_index ?q \<in> {0, 1, 2}"
    by (simp only: qres.select_convs insertI1 simp_thms)
  note t = table_candidate_step[OF h1 h2 h3 h4 h5, of "[]", THEN conjunct1, rule_format, OF a]
  from t have m: "accepted_record ?S 0 ?q \<in> set (fst (tab_loop ?chat ?S 0 ?u [] ()))"
    by (elim conjE)
  from t have "end_sent_idx (accepted_record ?S 0 ?q) = min (int 0 + end_index ?q) (int (length ?S) - 1)"
    by (elim conjE)
  then have e: "end_sent_idx (accepted_record ?S 0 ?q) = 0" by simp
  from m e show ?thesis unfolding detect_table_captions_def by (rule conjI)
qed

section \<open>The window of a record\<close>

text \<open>
  Claim C6 says that a FIGURE record has an empty \<open>raw_window\<close>. The figure detector
  stores the spanned sentences there.
\<close>

theorem figure_raw_window_counterexample:
  "map raw_window (detect_figure_captions [''Fig. 1 shows data.'', ''More.'']) =
     [[''Fig. 1 shows data.'', ''More.'']]"
  by code_simp

text \<open>
  Claim C6, as the code has it: every FIGURE record carries as \<open>raw_window\<close> the
  sentences of its span, which is never empty; every TABLE record carries the three
  entries \<open>[S0, S1, S2]\<close> given to the model, where \<open>S1\<close> and \<open>S2\<close> are the empty
  string when the document ends before them.
\<close>

theorem raw_window_contents:
  "(\<forall>r \<in> set (detect_figure_captions sentences).
      cap_type r = ''FIGURE'' \<and>
      raw_window r = slice sentences (nat (start_sent_idx r)) (nat (end_sent_idx r) + 1) \<and>
      raw_window r \<noteq> []) \<and>
   (\<forall>r \<in> set (fst (detect_table_captions chat st sentences)).
      cap_type r = ''TABLE'' \<and>
      raw_window r =
        [sentences ! nat (start_sent_idx r),
         window1 sentences (nat (start_sent_idx r)),
         window2 sentences (nat (start_sent_idx r))])"
proof (rule conjI; rule ballI)
  fix r assume "r \<in> set (detect_figure_captions sentences)"
  from detect_figure_records[OF this] obtain j m
    where j: "j < length sentences" and r: "r = figure_record sentences j m" by blast
  show "cap_type r = ''FIGURE'' \<and>
      raw_window r = slice sentences (nat (start_sent_idx r)) (nat (end_sent_idx r) + 1) \<and>
      raw_window r \<noteq> []"
    unfolding r using j by (rule figure_record_window)
next
  fix r assume "r \<in> set (fst (detect_table_captions chat st sentences))"
  from detect_table_records[OF this] obtain j q
    where r: "r = rejected_record sentences j q \<or> r = accepted_record sentences j q \<and> 0 \<le> end_index q"
    by blast
  then show "cap_type r = ''TABLE'' \<and>
      raw_window r =
        [sentences ! nat (start_sent_idx r),
         window1 sentences (nat (start_sent_idx r)),
         window2 sentences (nat (start_sent_idx r))]"
  proof (elim disjE conjE)
    assume r: "r = rejected_record sentences j q"
    show ?thesis unfolding r by (rule rejected_record_window)
  next
    assume r: "r = accepted_record sentences j q"
    show ?thesis unfolding r by (rule accepted_record_window)
  qed
qed

theorem raw_window_contents_witness:
  "raw_window (figure_record [''Fig. 1 a.'', ''b.''] 0 0) \<noteq> [] \<and>
   cap_type (rejected_record [''See Table 1.''] 0
      \<lparr>label = ''ERROR'', end_index = - 1, reason = ''Qwen call error: down''\<rparr>) = ''TABLE''"
proof -
  have e1: "detect_figure_captions [''Fig. 1 a.'', ''b.''] = [figure_record [''Fig. 1 a.'', ''b.''] 0 0]"
    by code_simp
  have e2: "fst (detect_table_captions (\<lambda>st s0 s1 s2. (Inl ''down'', st)) () [''See Table 1.'']) =
      [rejected_record [''See Table 1.''] 0 \<lparr>label = ''ERROR'', end_index = - 1, reason = ''Qwen call error: down''\<rparr>]"
    by code_simp
  have m1: "figure_record [''Fig. 1 a.'', ''b.''] 0 0 \<in> set (detect_figure_captions [''Fig. 1 a.'', ''b.''])"
    unfolding e1 by (simp only: list.set insertI1)
  have m2: "rejected_record [''See Table 1.''] 0 \<lparr>label = ''ERROR'', end_index = - 1, reason = ''Qwen call error: down''\<rparr>
      \<in> set (fst (detect_table_captions (\<lambda>st s0 s1 s2. (Inl ''down'', st)) () [''See Table 1.'']))"
    unfolding e2 by (simp only: list.set insertI1)
  from raw_window_contents[THEN conjunct1, rule_format, OF m1]
    raw_window_contents[THEN conjunct2, rule_format, OF m2]
  show ?thesis by blast
qed

section \<open>The parser's result is normalized\<close>



section \<open>Where a figure caption starts\<close>

text \<open>
  Claim C5 says that a sentence starts a figure caption exactly when it contains
  \<open>Fig.\<close> followed by white space and a number, so that \<open>Fig.3\<close> is no match. The
  pattern is \<^verbatim>\<open>\bFig\.\s*\d+\<close>: the white space may be missing, and a word
  boundary is required before the \<open>F\<close>. The sentence \<open>Fig.3\<close> matches and gives a
  record; \<open>SFig. 3\<close>, which contains \<open>Fig. 3\<close>, does not match.
\<close>

theorem fig_no_space_counterexample:
  "re_search FIG_PATTERN ''Fig.3'' \<noteq> None \<and>
   map start_sent_idx (detect_figure_captions [''Fig.3'']) = [0] \<and>
   re_search FIG_PATTERN ''SFig. 3'' = None"
  by code_simp

text \<open>
  Claim C5, as the code has it: a sentence matches \<open>FIG_PATTERN\<close> if and only if it
  contains, not directly after a word character, \<open>Fig.\<close> in any letter case followed
  by zero or more white-space characters and at least one digit. A one-sentence document
  gives a figure record exactly then, and at an unclaimed index the loop appends a
  record that starts there exactly then.
\<close>

theorem figure_start_iff:
  "(re_search FIG_PATTERN s \<noteq> None \<longleftrightarrow> fig_start s) \<and>
   (detect_figure_captions [s] \<noteq> [] \<longleftrightarrow> fig_start s) \<and>
   (i < length sentences \<and> \<not> used ! i \<longrightarrow>
      (fig_start (sentences ! i) \<longrightarrow>
         (\<exists>m. fig_loop sentences i used results =
            fig_loop sentences (Suc i) (mark used i (fig_end sentences i))
              (results @ [figure_record sentences i m]))) \<and>
      (\<not> fig_start (sentences ! i) \<longrightarrow>
         fig_loop sentences i used results = fig_loop sentences (Suc i) used results))"
proof (intro conjI impI)
  show "re_search FIG_PATTERN s \<noteq> None \<longleftrightarrow> fig_start s" by (rule fig_pattern_iff)
  show "detect_figure_captions [s] \<noteq> [] \<longleftrightarrow> fig_start s"
    unfolding detect_single by (rule fig_pattern_iff)
next
  assume a: "i < length sentences \<and> \<not> used ! i" and f: "fig_start (sentences ! i)"
  from f have "re_search FIG_PATTERN (sentences ! i) \<noteq> None" by (simp only: fig_pattern_iff)
  then obtain m parts where "re_search FIG_PATTERN (sentences ! i) = Some (m, parts)" by auto
  from fig_loop_match[OF conjunct1[OF a] conjunct2[OF a] this]
  show "\<exists>m. fig_loop sentences i used results =
            fig_loop sentences (Suc i) (mark used i (fig_end sentences i))
              (results @ [figure_record sentences i m])" by (rule exI)
next
  assume a: "i < length sentences \<and> \<not> used ! i" and f: "\<not> fig_start (sentences ! i)"
  from f have "re_search FIG_PATTERN (sentences ! i) = None"
    using fig_pattern_iff[of "sentences ! i"] by blast
  from fig_loop_nomatch[OF conjunct1[OF a] conjunct2[OF a] this]
  show "fig_loop sentences i used results = fig_loop sentences (Suc i) used results" .
qed

theorem figure_start_iff_witness:
  "fig_start ''Fig.3'' \<and> fig_loop [''Fig.3''] 0 [False] [] \<noteq> []"
proof -
  have m: "re_search FIG_PATTERN ''Fig.3'' \<noteq> None" by code_simp
  have f: "fig_start ''Fig.3''"
    using figure_start_iff[of "''Fig.3''", THEN conjunct1] m by blast
  have a: "0 < length [''Fig.3''] \<and> \<not> [False] ! 0" by simp
  have s: "[''Fig.3''] ! 0 = ''Fig.3''" by simp
  from figure_start_iff[of _ 0 "[''Fig.3'']" "[False]" "[]", THEN conjunct2, THEN conjunct2, rule_format, OF a]
  have "fig_start ''Fig.3'' \<longrightarrow>
         (\<exists>m. fig_loop [''Fig.3''] 0 [False] [] =
            fig_loop [''Fig.3''] (Suc 0) (mark [False] 0 (fig_end [''Fig.3''] 0))
              ([] @ [figure_record [''Fig.3''] 0 m]))"
    unfolding s by (rule conjunct1)
  with f obtain m where "fig_loop [''Fig.3''] 0 [False] [] =
            fig_loop [''Fig.3''] (Suc 0) (mark [False] 0 (fig_end [''Fig.3''] 0))
              ([] @ [figure_record [''Fig.3''] 0 m])" by blast
  also have "\<dots> = [] @ [figure_record [''Fig.3''] 0 m]" by (rule fig_loop_done) simp
  finally have 1: "fig_loop [''Fig.3''] 0 [False] [] \<noteq> []" by simp
  from f 1 show ?thesis by (rule conjI)
qed

section \<open>Which text a document gives\<close>

text \<open>
  Claim C7 says that the extractor tries the rawtext region, then the body, then the
  whole document, and returns the first result that is not empty. The script that
  lists sentences, \<open>extract_text_from_xml\<close>, chooses by the first query that finds a
  text node, not by the first text that is not empty: a document whose rawtext element
  holds one blank gives the empty text although its body has text. The caption
  pipeline's \<open>extract_rawtext_from_xml\<close> reads the rawtext region only: a document
  with a body and no rawtext element gives no record.
\<close>

theorem text_extraction_counterexample:
  "extract_text_from_xml
     (Some \<lparr>rawtext_nodes = ['' ''], body_nodes = [''Table 1 lists yields.''],
            all_nodes = ['' '', ''Table 1 lists yields.'']\<rparr>) = Some [] \<and>
   fst (process_single_xml (\<lambda>st s0 s1 s2. (Inl ''down'', st)) () ''a.xml''
     (Some \<lparr>rawtext_nodes = [], body_nodes = [''Fig. 1 shows data.''],
            all_nodes = [''Fig. 1 shows data.'']\<rparr>)) = []"
  by code_simp

text \<open>
  Claim C7, as the code has it: \<open>extract_text_from_xml\<close> takes the first of the rawtext
  region, the body region and the whole document that has a text node, and returns its
  text with white space normalised, also when that text is empty; it returns nothing
  for a file that does not parse or has no text node. \<open>extract_rawtext_from_xml\<close>
  returns nothing when the file does not parse or has no rawtext text node. In the
  caption pipeline a document whose extracted text is absent or empty gives no record,
  and the chat model is not called; a document with text and sentences gives the
  figure records followed by the table records, each with the file name. What stays of
  the claim's first non-empty result: when some rawtext text node has a character that
  is not white space, \<open>extract_text_from_xml\<close> returns a text that is not empty.
\<close>

theorem text_extraction:
  "(rawtext_nodes d \<noteq> [] \<longrightarrow>
      extract_text_from_xml (Some d) = Some (join '' '' (py_split (join '' '' (rawtext_nodes d))))) \<and>
   (rawtext_nodes d = [] \<and> body_nodes d \<noteq> [] \<longrightarrow>
      extract_text_from_xml (Some d) = Some (join '' '' (py_split (join '' '' (body_nodes d))))) \<and>
   (rawtext_nodes d = [] \<and> body_nodes d = [] \<and> all_nodes d \<noteq> [] \<longrightarrow>
      extract_text_from_xml (Some d) = Some (join '' '' (py_split (join '' '' (all_nodes d))))) \<and>
   (rawtext_nodes d = [] \<and> body_nodes d = [] \<and> all_nodes d = [] \<longrightarrow>
      extract_text_from_xml (Some d) = None) \<and>
   extract_text_from_xml None = None \<and>
   extract_rawtext_from_xml None = None \<and>
   (rawtext_nodes d = [] \<longrightarrow> extract_rawtext_from_xml (Some d) = None) \<and>
   ((\<forall>t. extract_rawtext_from_xml doc = Some t \<longrightarrow> t = []) \<longrightarrow>
      process_single_xml chat st fname doc = ([], st)) \<and>
   (\<forall>t. extract_rawtext_from_xml doc = Some t \<and> t \<noteq> [] \<and> split_sentences t \<noteq> [] \<longrightarrow>
      fst (process_single_xml chat st fname doc) =
        map (with_file fname)
          (detect_figure_captions (split_sentences t) @
           fst (detect_table_captions chat st (split_sentences t)))) \<and>
   ((\<exists>x \<in> set (rawtext_nodes d). \<exists>c \<in> set x. \<not> is_space c) \<longrightarrow>
      (\<exists>t. extract_text_from_xml (Some d) = Some t \<and> t \<noteq> []))"
proof -
  have p: "process_single_xml chat st fname doc = ([], st)"
    if "\<forall>t. extract_rawtext_from_xml doc = Some t \<longrightarrow> t = []"
  proof (cases "extract_rawtext_from_xml doc")
    case None
    then show ?thesis by (simp add: process_single_xml_def)
  next
    case (Some t)
    with that have "t = []" by blast
    with Some show ?thesis by (simp add: process_single_xml_def)
  qed
  have r: "fst (process_single_xml chat st fname doc) =
        map (with_file fname)
          (detect_figure_captions (split_sentences t) @
           fst (detect_table_captions chat st (split_sentences t)))"
    if "extract_rawtext_from_xml doc = Some t \<and> t \<noteq> [] \<and> split_sentences t \<noteq> []" for t
    using that by (simp add: process_single_xml_def Let_def split: prod.split)
  have n: "\<exists>t. extract_text_from_xml (Some d) = Some t \<and> t \<noteq> []"
    if "\<exists>x \<in> set (rawtext_nodes d). \<exists>c \<in> set x. \<not> is_space c"
  proof -
    from that obtain x c where x: "x \<in> set (rawtext_nodes d)" and c: "c \<in> set x" "\<not> is_space c"
      by blast
    from x have ne: "rawtext_nodes d \<noteq> []" by auto
    from x c(1) have "c \<in> set (concat (rawtext_nodes d))" by auto
    with concat_join have "c \<in> set (join '' '' (rawtext_nodes d))" by blast
    with c(2) have "c \<in> set (concat (py_split (join '' '' (rawtext_nodes d))))"
      unfolding py_split_concat by simp
    with concat_join have "c \<in> set (join '' '' (py_split (join '' '' (rawtext_nodes d))))" by blast
    then have "join '' '' (py_split (join '' '' (rawtext_nodes d))) \<noteq> []" by auto
    with ne show ?thesis by (simp add: extract_text_from_xml_def)
  qed
  show ?thesis
    using p r n by (simp add: extract_text_from_xml_def extract_rawtext_from_xml_def)
qed

theorem text_extraction_witness:
  "extract_text_from_xml
     (Some \<lparr>rawtext_nodes = [], body_nodes = [''a  b''], all_nodes = [''a  b'']\<rparr>) = Some ''a b'' \<and>
   process_single_xml (\<lambda>st s0 s1 s2. (Inl ''down'', st)) () ''a.xml''
     (Some \<lparr>rawtext_nodes = ['' ''], body_nodes = [], all_nodes = ['' '']\<rparr>) = ([], ())"
proof -
  let ?d = "\<lparr>rawtext_nodes = [], body_nodes = [''a  b''], all_nodes = [''a  b'']\<rparr>"
  let ?e = "Some \<lparr>rawtext_nodes = ['' ''], body_nodes = [], all_nodes = ['' '']\<rparr>"
  have h: "rawtext_nodes ?d = [] \<and> body_nodes ?d \<noteq> []" by simp
  have v: "join '' '' (py_split (join '' '' (body_nodes ?d))) = ''a b''" by code_simp
  from text_extraction[of ?d, THEN conjunct2, THEN conjunct1, rule_format, OF h]
  have 1: "extract_text_from_xml (Some ?d) = Some ''a b''" unfolding v .
  have x: "extract_rawtext_from_xml ?e = Some []" by code_simp
  have "\<forall>t. extract_rawtext_from_xml ?e = Some t \<longrightarrow> t = []" unfolding x by simp
  from text_extraction[THEN conjunct2, THEN conjunct2, THEN conjunct2, THEN conjunct2,
      THEN conjunct2, THEN conjunct2, THEN conjunct2, THEN conjunct1, THEN mp, OF this]
  have 2: "process_single_xml (\<lambda>st s0 s1 s2. (Inl ''down'', st)) () ''a.xml'' ?e = ([], ())" .
  from 1 2 show ?thesis by (rule conjI)
qed

section \<open>A response that does not match the pattern\<close>

text \<open>
  Claim C3. The parser is a total function of the response: the one operation of the
  source that can raise, \<open>int\<close>, is caught there, and the model has no error result.
  It keeps the response from the first \<open>LABEL=\<close> on (all of it when there is none);
  \<open>one_line\<close> turns it into its white-space-free words joined by single blanks, so that
  line breaks and runs of white space become one blank and none stays at either end;
  then the pattern is searched. The search finds a match exactly when the pattern
  occurs in the text, and when it does not occur the result is label PARSE_ERROR, end
  index \<open>-1\<close> and the reason \<open>raw: \<close> followed by the first 200 characters of that
  one-line text.
\<close>

theorem parse_never_fails:
  "((\<forall>pre post. resp \<noteq> pre @ ''LABEL='' @ post) \<longrightarrow> from_label resp = resp) \<and>
   (\<forall>pre post.
      resp = pre @ ''LABEL='' @ post \<and>
      (\<forall>pre' post'. resp = pre' @ ''LABEL='' @ post' \<longrightarrow> length pre \<le> length pre') \<longrightarrow>
      from_label resp = ''LABEL='' @ post) \<and>
   one_line t = join '' '' (py_split t) \<and>
   (\<forall>w \<in> set (py_split t). w \<noteq> [] \<and> (\<forall>c \<in> set w. \<not> is_space c)) \<and>
   concat (py_split t) = filter (\<lambda>c. \<not> is_space c) t \<and>
   (\<forall>c \<in> set (one_line t). is_space c \<longrightarrow> c = CHR '' '') \<and>
   (re_search PARSE_RE (one_line (from_label resp)) \<noteq> None \<longleftrightarrow>
      occurs PARSE_RE (one_line (from_label resp))) \<and>
   (\<not> occurs PARSE_RE (one_line (from_label resp)) \<longrightarrow>
      parse_table_response resp =
        \<lparr>label = ''PARSE_ERROR'', end_index = - 1,
         reason = ''raw: '' @ take 200 (one_line (from_label resp))\<rparr>)"
proof (intro conjI)
  show "(\<forall>pre post. resp \<noteq> pre @ ''LABEL='' @ post) \<longrightarrow> from_label resp = resp"
    by (intro impI) (rule from_label_absent)
  show "\<forall>pre post.
      resp = pre @ ''LABEL='' @ post \<and>
      (\<forall>pre' post'. resp = pre' @ ''LABEL='' @ post' \<longrightarrow> length pre \<le> length pre') \<longrightarrow>
      from_label resp = ''LABEL='' @ post"
  proof (intro allI impI)
    fix pre post
    assume a: "resp = pre @ ''LABEL='' @ post \<and>
      (\<forall>pre' post'. resp = pre' @ ''LABEL='' @ post' \<longrightarrow> length pre \<le> length pre')"
    show "from_label resp = ''LABEL='' @ post"
      by (rule from_label_first[OF conjunct1[OF a] conjunct2[OF a]])
  qed
  show "one_line t = join '' '' (py_split t)" by (rule one_line_split)
  show "\<forall>w \<in> set (py_split t). w \<noteq> [] \<and> (\<forall>c \<in> set w. \<not> is_space c)" by (rule py_split_words)
  show "concat (py_split t) = filter (\<lambda>c. \<not> is_space c) t" by (rule py_split_concat)
  show "\<forall>c \<in> set (one_line t). is_space c \<longrightarrow> c = CHR '' ''" by (rule one_line_spaces)
  show "re_search PARSE_RE (one_line (from_label resp)) \<noteq> None \<longleftrightarrow>
      occurs PARSE_RE (one_line (from_label resp))" by (rule re_search_occurs)
  show "\<not> occurs PARSE_RE (one_line (from_label resp)) \<longrightarrow>
      parse_table_response resp =
        \<lparr>label = ''PARSE_ERROR'', end_index = - 1,
         reason = ''raw: '' @ take 200 (one_line (from_label resp))\<rparr>"
    by (intro impI) (rule parse_no_match)
qed

theorem parse_never_fails_witness:
  "parse_table_response ''x LABEL=oops'' =
     \<lparr>label = ''PARSE_ERROR'', end_index = - 1, reason = ''raw: LABEL=oops''\<rparr>"
proof -
  let ?R = "''x LABEL=oops''"
  have n: "re_search PARSE_RE (one_line (from_label ?R)) = None" by code_simp
  then have h: "\<not> occurs PARSE_RE (one_line (from_label ?R))"
    using re_search_occurs[of PARSE_RE "one_line (from_label ?R)"] by blast
  have v: "''raw: '' @ take 200 (one_line (from_label ?R)) = ''raw: LABEL=oops''" by code_simp
  from parse_never_fails[of ?R, THEN conjunct2, THEN conjunct2, THEN conjunct2, THEN conjunct2,
      THEN conjunct2, THEN conjunct2, THEN conjunct2, THEN mp, OF h]
  show ?thesis unfolding v .
qed

section \<open>A response that matches the pattern\<close>

text \<open>
  Claim C4 says that a matching response with an unknown label or an integer outside
  \<open>{-1, 0, 1, 2}\<close> gives the whole PARSE_ERROR result: label PARSE_ERROR, end index
  \<open>-1\<close> and the truncated raw text as reason. The source corrects the two fields one
  by one and keeps the captured reason: an integer out of range leaves the label
  TABLE_CAPTION, and an unknown label leaves the end index 1.
\<close>

theorem parse_out_of_range_counterexample:
  "parse_table_response ''LABEL=TABLE_CAPTION; END_INDEX=5; REASON=x'' =
     \<lparr>label = ''TABLE_CAPTION'', end_index = - 1, reason = ''x''\<rparr> \<and>
   parse_table_response ''LABEL=FOO; END_INDEX=1; REASON=x'' =
     \<lparr>label = ''PARSE_ERROR'', end_index = 1, reason = ''x''\<rparr>"
  by code_simp

text \<open>
  Claim C4, as the code has it: when the pattern matches, the label is the captured
  label if that is TABLE_CAPTION or NOT_CAPTION and PARSE_ERROR otherwise; the end index
  is the captured integer if that is one of \<open>-1, 0, 1, 2\<close> and \<open>-1\<close> otherwise (also
  when \<open>int\<close> raises); each of the two is corrected without regard to the other; and
  the reason is the captured rest of the line with surrounding white space removed.
  The captured texts are those of a cut of the response that the pattern allows: the
  label consists of capitals and underscores, the integer of digits and the minus
  sign, and the reason has no line feed.
\<close>

theorem parse_match_coercion:
  assumes "occurs PARSE_RE (one_line (from_label resp))"
  shows "\<exists>k parts.
     re_search PARSE_RE (one_line (from_label resp)) = Some (k, parts) \<and>
     parts_ok (map snd PARSE_RE) (last_of None (take k (one_line (from_label resp))))
       (drop k (one_line (from_label resp))) parts \<and>
     label (parse_table_response resp) =
       (if group PARSE_RE parts 1 \<in> {''TABLE_CAPTION'', ''NOT_CAPTION''}
        then group PARSE_RE parts 1 else ''PARSE_ERROR'') \<and>
     end_index (parse_table_response resp) =
       (case py_int (group PARSE_RE parts 2) of
          None \<Rightarrow> - 1
        | Some v \<Rightarrow> if v \<in> {- 1, 0, 1, 2} then v else - 1) \<and>
     reason (parse_table_response resp) = strip (group PARSE_RE parts 3) \<and>
     list_all label_char (group PARSE_RE parts 1) \<and>
     list_all (\<lambda>c. is_digit c \<or> c = CHR ''-'') (group PARSE_RE parts 2) \<and>
     list_all not_newline (group PARSE_RE parts 3)"
proof -
  from assms have "re_search PARSE_RE (one_line (from_label resp)) \<noteq> None"
    by (simp only: re_search_occurs)
  then obtain k parts where s: "re_search PARSE_RE (one_line (from_label resp)) = Some (k, parts)"
    by auto
  from re_search_Some[OF s]
  have p: "parts_ok (map snd PARSE_RE) (last_of None (take k (one_line (from_label resp))))
      (drop k (one_line (from_label resp))) parts" by (rule conjunct2)
  note m = parse_match[OF s]
  have l: "label (parse_table_response resp) =
       (if group PARSE_RE parts 1 \<in> {''TABLE_CAPTION'', ''NOT_CAPTION''}
        then group PARSE_RE parts 1 else ''PARSE_ERROR'')"
    unfolding m by (simp only: qres.select_convs)
  have e: "end_index (parse_table_response resp) =
       (case py_int (group PARSE_RE parts 2) of
          None \<Rightarrow> - 1
        | Some v \<Rightarrow> if v \<in> {- 1, 0, 1, 2} then v else - 1)"
    unfolding m by (simp only: qres.select_convs)
  have r: "reason (parse_table_response resp) = strip (group PARSE_RE parts 3)"
    unfolding m by (simp only: qres.select_convs)
  note c = parts_ok_chars[OF p]
  have c1: "list_all label_char (group PARSE_RE parts 1)"
    by (rule group_chars[OF c PARSE_RE_group1])
  have c2: "list_all (\<lambda>c. is_digit c \<or> c = CHR ''-'') (group PARSE_RE parts 2)"
    by (rule group_chars[OF c PARSE_RE_group2])
  have c3: "list_all not_newline (group PARSE_RE parts 3)"
    by (rule group_chars[OF c PARSE_RE_group3])
  from s p l e r c1 c2 c3 show ?thesis by blast
qed

theorem parse_match_coercion_witness:
  "label (parse_table_response ''LABEL=FOO; END_INDEX=1; REASON=x'') = ''PARSE_ERROR'' \<and>
   end_index (parse_table_response ''LABEL=FOO; END_INDEX=1; REASON=x'') = 1 \<and>
   reason (parse_table_response ''LABEL=FOO; END_INDEX=1; REASON=x'') = ''x''"
proof -
  let ?R = "''LABEL=FOO; END_INDEX=1; REASON=x''"
  have g: "map_option (\<lambda>(k, parts). (group PARSE_RE parts 1, group PARSE_RE parts 2, group PARSE_RE parts 3))
      (re_search PARSE_RE (one_line (from_label ?R))) = Some (''FOO'', ''1'', ''x'')"
    by code_simp
  then have "re_search PARSE_RE (one_line (from_label ?R)) \<noteq> None" by auto
  then have o: "occurs PARSE_RE (one_line (from_label ?R))" by (simp only: re_search_occurs)
  from parse_match_coercion[OF o] obtain k parts where
    s: "re_search PARSE_RE (one_line (from_label ?R)) = Some (k, parts)" and
    l: "label (parse_table_response ?R) =
       (if group PARSE_RE parts 1 \<in> {''TABLE_CAPTION'', ''NOT_CAPTION''}
        then group PARSE_RE parts 1 else ''PARSE_ERROR'')" and
    e: "end_index (parse_table_response ?R) =
       (case py_int (group PARSE_RE parts 2) of
          None \<Rightarrow> - 1
        | Some v \<Rightarrow> if v \<in> {- 1, 0, 1, 2} then v else - 1)" and
    r: "reason (parse_table_response ?R) = strip (group PARSE_RE parts 3)"
    by blast
  from g s have g1: "group PARSE_RE parts 1 = ''FOO''" and g2: "group PARSE_RE parts 2 = ''1''"
    and g3: "group PARSE_RE parts 3 = ''x''" by simp_all
  have v1: "(if ''FOO'' \<in> {''TABLE_CAPTION'', ''NOT_CAPTION''} then ''FOO'' else ''PARSE_ERROR'') = ''PARSE_ERROR''"
    by simp
  have v2: "(case py_int ''1'' of None \<Rightarrow> - 1 | Some v \<Rightarrow> if v \<in> {- 1, 0, 1, 2} then v else - 1) = 1"
    by code_simp
  have v3: "strip ''x'' = ''x''" by code_simp
  from l e r show ?thesis unfolding g1 g2 g3 v1 v2 v3 by (intro conjI)
qed

section \<open>Scenario A\<close>

text \<open>
  Claim C9. The text \<open>See Fig. 3. It shows the TGA curve. Conditions were 600\<degree>C.\<close>
  (the degree sign is code point 176) is split into exactly three sentences, and the
  figure detector emits exactly one record for them: type FIGURE, id \<open>3\<close>, start index 0,
  end index 2, with the three sentences joined by single spaces as its caption text.
\<close>

theorem scenario_A_figure:
  "split_sentences (''See Fig. 3. It shows the TGA curve. Conditions were 600'' @ [CHR 0xB0] @ ''C.'') =
     [''See Fig. 3.'', ''It shows the TGA curve.'', ''Conditions were 600'' @ [CHR 0xB0] @ ''C.''] \<and>
   detect_figure_captions
     (split_sentences (''See Fig. 3. It shows the TGA curve. Conditions were 600'' @ [CHR 0xB0] @ ''C.'')) =
     [\<lparr>cap_type = ''FIGURE'', cap_id = Some ''3'', start_sent_idx = 0, end_sent_idx = 2,
       caption_text = ''See Fig. 3. It shows the TGA curve. Conditions were 600'' @ [CHR 0xB0] @ ''C.'',
       source = ''RULE_FIG_PATTERN'',
       raw_window = [''See Fig. 3.'', ''It shows the TGA curve.'', ''Conditions were 600'' @ [CHR 0xB0] @ ''C.''],
       table_label = None, table_end_in_window = None, table_reason = None\<rparr>]"
  by code_simp

end
